theory Spec2Isabelle
  imports Main "HOL-Library.Word" "HOL-Library.List_Lexorder" "HOL-Library.Multiset"
begin

section \<open>JavaScript values\<close>

text \<open>
  A JavaScript string is a sequence of 16-bit code units; IndexedDB compares string keys
  code unit by code unit, which is the lexicographic order on \<open>16 word list\<close>.
  \<open>js\<close> writes an ASCII literal of the source as such a string.
\<close>

type_synonym jsstring = "16 word list"

definition js :: "string \<Rightarrow> jsstring" where
  "js s = map of_char s"

text \<open>
  The values that rows and arguments carry. Numbers are the integer-valued ones
  (\<open>Date.now()\<close> readings, counters); \<open>NaN\<close> and fractions do not occur in the
  operations modelled here. An object is a finite map from property names to values;
  a property that is absent reads as \<open>undefined\<close>.
\<close>

datatype jsval = JUndefined | JNull | JBool bool | JNum int | JStr jsstring

type_synonym obj = "string \<rightharpoonup> jsval"

text \<open>\<open>!v\<close> is true exactly on the falsy values.\<close>

fun truthy :: "jsval option \<Rightarrow> bool" where
  "truthy None = False"
| "truthy (Some JUndefined) = False"
| "truthy (Some JNull) = False"
| "truthy (Some (JBool b)) = b"
| "truthy (Some (JNum n)) = (n \<noteq> 0)"
| "truthy (Some (JStr s)) = (s \<noteq> [])"

text \<open>\<open>String(n)\<close> of an integer, as a template literal interpolates it.\<close>

fun dec_nat :: "nat \<Rightarrow> jsstring" where
  "dec_nat n = (if n < 10 then [of_nat (48 + n)]
                else dec_nat (n div 10) @ [of_nat (48 + n mod 10)])"

declare dec_nat.simps [simp del]

definition dec_int :: "int \<Rightarrow> jsstring" where
  "dec_int i = (if i < 0 then js ''-'' @ dec_nat (nat (- i)) else dec_nat (nat i))"

section \<open>Object stores\<close>

text \<open>
  The keys of IndexedDB that the values above can give: numbers and strings, every number
  before every string.
\<close>

datatype idb_key = KNum int | KStr jsstring

fun key_le :: "idb_key \<Rightarrow> idb_key \<Rightarrow> bool" where
  "key_le (KNum a) (KNum b) = (a \<le> b)"
| "key_le (KNum a) (KStr b) = True"
| "key_le (KStr a) (KNum b) = False"
| "key_le (KStr a) (KStr b) = (a \<le> b)"

instantiation idb_key :: linorder
begin

definition less_eq_idb_key :: "idb_key \<Rightarrow> idb_key \<Rightarrow> bool" where
  "less_eq_idb_key a b = key_le a b"

definition less_idb_key :: "idb_key \<Rightarrow> idb_key \<Rightarrow> bool" where
  "less_idb_key a b = (key_le a b \<and> \<not> key_le b a)"

instance
proof
  fix x y z :: idb_key
  show "(x < y) = (x \<le> y \<and> \<not> y \<le> x)"
    by (simp add: less_idb_key_def less_eq_idb_key_def)
  show "x \<le> x"
    by (cases x) (simp_all add: less_eq_idb_key_def)
  show "x \<le> y \<Longrightarrow> y \<le> z \<Longrightarrow> x \<le> z"
    by (cases x; cases y; cases z) (auto simp: less_eq_idb_key_def)
  show "x \<le> y \<Longrightarrow> y \<le> x \<Longrightarrow> x = y"
    by (cases x; cases y) (auto simp: less_eq_idb_key_def)
  show "x \<le> y \<or> y \<le> x"
    by (cases x; cases y) (auto simp: less_eq_idb_key_def)
qed

end

text \<open>The key a key path evaluates to; \<open>None\<close> when the value is not a valid key.\<close>

fun to_key :: "jsval option \<Rightarrow> idb_key option" where
  "to_key (Some (JNum n)) = Some (KNum n)"
| "to_key (Some (JStr s)) = Some (KStr s)"
| "to_key _ = None"

text \<open>
  An object store holds its rows in ascending key order, one row per key.
  \<open>put\<close> overwrites, \<open>add\<close> fails on an existing key (\<open>ConstraintError\<close>),
  \<open>getAll\<close> on an index with a fixed index key returns the matching rows in
  primary-key order. \<open>cursor_delete\<close> is the loop of the source over a cursor on an
  index range, \<open>cursor.delete()\<close> then \<open>cursor.continue()\<close> until the cursor is
  null: the rows in the range go, the others stay.
\<close>

type_synonym 'r store = "(idb_key \<times> 'r) list"

definition get :: "idb_key \<Rightarrow> 'r store \<Rightarrow> 'r option" where
  "get k st = map_of st k"

fun put :: "idb_key \<Rightarrow> 'r \<Rightarrow> 'r store \<Rightarrow> 'r store" where
  "put k v [] = [(k, v)]"
| "put k v ((k', v') # st) =
     (if k < k' then (k, v) # (k', v') # st
      else if k = k' then (k, v) # st
      else (k', v') # put k v st)"

definition delete :: "idb_key \<Rightarrow> 'r store \<Rightarrow> 'r store" where
  "delete k st = filter (\<lambda>(k', v). k' \<noteq> k) st"

fun cursor_delete :: "('r \<Rightarrow> bool) \<Rightarrow> 'r store \<Rightarrow> 'r store" where
  "cursor_delete in_range [] = []"
| "cursor_delete in_range ((k, v) # st) =
     (if in_range v then cursor_delete in_range st else (k, v) # cursor_delete in_range st)"

definition getAll :: "('r \<Rightarrow> bool) \<Rightarrow> 'r store \<Rightarrow> 'r list" where
  "getAll in_range st = map snd (filter (\<lambda>(k, v). in_range v) st)"

definition wf_store :: "'r store \<Rightarrow> bool" where
  "wf_store st = sorted_wrt (<) (map fst st)"

section \<open>The database\<close>

text \<open>
  Session ids, and the type and the key of a resource, are strings. Sessions, messages
  and settings rows are the caller's objects. Resource, custom reply and anniversary rows
  are built by the save operations from an object literal, so each is a record of that
  literal's fields. Failures of the storage engine itself (quota, I/O) are outside the
  model: a request fails only for the reasons IndexedDB specifies for its arguments.
\<close>

record resource =
  id_res :: jsstring
  sessionId_res :: jsstring
  type_res :: jsstring
  key_res :: jsstring
  data_res :: jsval
  timestamp_res :: int

record reply =
  id_rep :: jsstring
  sessionId_rep :: jsstring
  text_rep :: jsval
  enabled_rep :: bool
  timestamp_rep :: int

record anniversary =
  id_ann :: jsstring
  sessionId_ann :: jsstring
  name_ann :: jsval
  date_ann :: jsval
  type_ann :: jsval
  createdAt_ann :: int

record db =
  sessions :: "obj store"
  messages :: "obj store"
  resources :: "resource store"
  settings :: "obj store"
  customReplies :: "reply store"
  anniversaries :: "anniversary store"

text \<open>
  How a returned promise ends. \<open>NeverSettles\<close> is the case where an exception leaves an
  event handler before \<open>resolve\<close> or \<open>reject\<close> is called.
\<close>

datatype error = NotFoundError | ConstraintError | DataError | TypeError

datatype outcome = Resolved | Rejected error | NeverSettles

section \<open>Sessions\<close>

text \<open>
  \<open>updateSession\<close>: one read-write transaction on \<open>sessions\<close>. The row is read; when
  there is none the promise is rejected and nothing has been written. Otherwise the
  updates are spread over the row and the result is put back under the key its \<open>id\<close>
  gives; when that is no valid key, \<open>put\<close> throws inside the success handler, the
  transaction is aborted and the promise is left pending.
\<close>

definition updateSession :: "jsstring \<Rightarrow> obj \<Rightarrow> db \<Rightarrow> outcome \<times> db" where
  "updateSession sessionId updates d =
     (case get (KStr sessionId) (sessions d) of
        None \<Rightarrow> (Rejected NotFoundError, d)
      | Some session \<Rightarrow>
          (let updatedSession = session ++ updates in
           case to_key (updatedSession ''id'') of
             None \<Rightarrow> (NeverSettles, d)
           | Some k \<Rightarrow> (Resolved, d\<lparr>sessions := put k updatedSession (sessions d)\<rparr>)))"

section \<open>Resources\<close>

text \<open>
  The primary key of a resource row is the template literal
  \<open>`${sessionId}_${type}_${key}`\<close>. \<open>saveResource\<close> puts the row under it,
  \<open>loadResource\<close> reads the \<open>data\<close> of the row under it, \<open>null\<close> when there is none.
  \<open>now\<close> is the reading of \<open>Date.now()\<close>.
\<close>

definition resource_id :: "jsstring \<Rightarrow> jsstring \<Rightarrow> jsstring \<Rightarrow> jsstring" where
  "resource_id sessionId type key = sessionId @ js ''_'' @ type @ js ''_'' @ key"

definition saveResource ::
  "jsstring \<Rightarrow> jsstring \<Rightarrow> jsstring \<Rightarrow> jsval \<Rightarrow> int \<Rightarrow> db \<Rightarrow> outcome \<times> db" where
  "saveResource sessionId type key data now d =
     (let id = resource_id sessionId type key;
          item = \<lparr>id_res = id, sessionId_res = sessionId, type_res = type, key_res = key,
                  data_res = data, timestamp_res = now\<rparr>
      in (Resolved, d\<lparr>resources := put (KStr id) item (resources d)\<rparr>))"

definition loadResource :: "jsstring \<Rightarrow> jsstring \<Rightarrow> jsstring \<Rightarrow> db \<Rightarrow> jsval" where
  "loadResource sessionId type key d =
     (let id = resource_id sessionId type key
      in case get (KStr id) (resources d) of None \<Rightarrow> JNull | Some r \<Rightarrow> data_res r)"

section \<open>Settings\<close>

text \<open>
  \<open>saveSettings\<close> puts the object \<open>{ sessionId, ...settings }\<close>: the spread comes second,
  so a \<open>sessionId\<close> property of \<open>settings\<close> replaces the argument, and the store's key
  path \<open>sessionId\<close> is evaluated on the result. \<open>put\<close> throws \<open>DataError\<close> inside the
  promise executor when that is no valid key. \<open>loadSettings\<close> reads the row under the
  session id; \<open>None\<close> is \<open>null\<close>.
\<close>

definition saveSettings :: "jsstring \<Rightarrow> obj \<Rightarrow> db \<Rightarrow> outcome \<times> db" where
  "saveSettings sessionId settings' d =
     (let item = [''sessionId'' \<mapsto> JStr sessionId] ++ settings'
      in case to_key (item ''sessionId'') of
           None \<Rightarrow> (Rejected DataError, d)
         | Some k \<Rightarrow> (Resolved, d\<lparr>settings := put k item (settings d)\<rparr>))"

definition loadSettings :: "jsstring \<Rightarrow> db \<Rightarrow> obj option" where
  "loadSettings sessionId d = get (KStr sessionId) (settings d)"

section \<open>Transactions\<close>

text \<open>
  The requests of one transaction run in the order they were made, on the transaction's
  own view of its stores. A request that fails and whose error nobody handles aborts the
  transaction: the requests after it do nothing and none of its writes is kept. The view
  is \<open>Inr\<close> of the store while the transaction is live and \<open>Inl\<close> of the error once a
  request has failed.

  Other transactions on the same stores see the committed database only. \<open>commits\<close>
  lists the committed states that a sequence of transactions goes through.
\<close>

definition add :: "idb_key \<Rightarrow> 'r \<Rightarrow> 'r store \<Rightarrow> error + 'r store" where
  "add k v st = (if get k st \<noteq> None then Inl ConstraintError else Inr (put k v st))"

definition tx_add :: "idb_key \<Rightarrow> 'r \<Rightarrow> error + 'r store \<Rightarrow> error + 'r store" where
  "tx_add k v w = (case w of Inl e \<Rightarrow> Inl e | Inr st \<Rightarrow> add k v st)"

fun commits :: "(db \<Rightarrow> db) list \<Rightarrow> db \<Rightarrow> db list" where
  "commits [] d = [d]"
| "commits (t # ts) d = d # commits ts (t d)"

section \<open>Deleting a session\<close>

text \<open>
  \<open>deleteSession\<close> opens one transaction on all six stores and makes, in this order:
  the delete of the session row; a cursor over the \<open>sessionId\<close> index at the session id,
  deleting each row it visits, on \<open>messages\<close>, \<open>customReplies\<close> and \<open>anniversaries\<close>;
  a cursor over the \<open>sessionId_type\<close> index of \<open>resources\<close> on the key range from
  \<open>[sessionId, '']\<close> to \<open>[sessionId, u]\<close>, bounds included, where \<open>u\<close> is the string of
  the one code unit \<open>0xFFFF\<close>; the delete of the
  settings row. Array keys compare component by component. A row of \<open>messages\<close> is in
  the \<open>sessionId\<close> index at a string when its \<open>sessionId\<close> property is that string.
  No request of this transaction fails on a string session id (the source resolves a
  cursor's promise on its error event as well), and the promise resolves when the
  transaction completes.
\<close>

definition deleteSession_tx :: "jsstring \<Rightarrow> db \<Rightarrow> db" where
  "deleteSession_tx sessionId d =
     (let d1 = d\<lparr>sessions := delete (KStr sessionId) (sessions d)\<rparr>;
          d2 = d1\<lparr>messages :=
                 cursor_delete (\<lambda>m. m ''sessionId'' = Some (JStr sessionId)) (messages d1)\<rparr>;
          d3 = d2\<lparr>customReplies :=
                 cursor_delete (\<lambda>r. sessionId_rep r = sessionId) (customReplies d2)\<rparr>;
          d4 = d3\<lparr>anniversaries :=
                 cursor_delete (\<lambda>a. sessionId_ann a = sessionId) (anniversaries d3)\<rparr>;
          d5 = d4\<lparr>resources :=
                 cursor_delete
                   (\<lambda>r. [sessionId, []] \<le> [sessionId_res r, type_res r] \<and>
                        [sessionId_res r, type_res r] \<le> [sessionId, [0xFFFF]])
                   (resources d4)\<rparr>
      in d5\<lparr>settings := delete (KStr sessionId) (settings d5)\<rparr>)"

definition deleteSession_transactions :: "jsstring \<Rightarrow> (db \<Rightarrow> db) list" where
  "deleteSession_transactions sessionId = [deleteSession_tx sessionId]"

definition deleteSession :: "jsstring \<Rightarrow> db \<Rightarrow> outcome \<times> db" where
  "deleteSession sessionId d = (Resolved, last (commits (deleteSession_transactions sessionId) d))"

section \<open>Messages\<close>

text \<open>
  The messages passed to \<open>saveMessages\<close> are the caller's objects: the array holds
  references, and an assignment to \<open>msg.sessionId\<close> or \<open>msg.id\<close> writes the object
  the caller holds. The heap maps references to objects; a reference outside it stands
  for an array element that is \<open>null\<close> or \<open>undefined\<close>, on which the property read
  throws.

  \<open>Date.now()\<close> and the nine characters cut from \<open>Math.random().toString(36)\<close> are
  inputs: \<open>now n\<close> and \<open>rnd n\<close> are what the calls return the \<open>n\<close>-th time an id is
  generated in the operation.
\<close>

type_synonym ref = nat

type_synonym heap = "ref \<rightharpoonup> obj"

definition msg_id :: "jsstring \<Rightarrow> int \<Rightarrow> jsstring \<Rightarrow> jsstring" where
  "msg_id sessionId now rnd = sessionId @ js ''_msg_'' @ dec_int now @ js ''_'' @ rnd"

text \<open>
  The \<open>forEach\<close> of \<open>saveMessages\<close>. Each message gets a \<open>sessionId\<close> when the one it
  has is falsy and a generated \<open>id\<close> when the one it has is falsy, both written to the
  caller's object; then \<open>store.add\<close> is called with it. \<open>add\<close> throws \<open>DataError\<close> at
  once when the \<open>id\<close> is no valid key, which ends the loop; otherwise it stores a copy of
  the object as it is then, and fails later, as a request, when the key is taken.
  The result is the exception thrown if any, the heap, the transaction's view of the
  store and the number of ids generated.
\<close>

fun insert_messages ::
  "jsstring \<Rightarrow> (nat \<Rightarrow> int) \<Rightarrow> (nat \<Rightarrow> jsstring) \<Rightarrow> ref list \<Rightarrow> heap \<Rightarrow>
   error + obj store \<Rightarrow> nat \<Rightarrow> error option \<times> heap \<times> (error + obj store) \<times> nat" where
  "insert_messages sessionId now rnd [] h w n = (None, h, w, n)"
| "insert_messages sessionId now rnd (r # rs) h w n =
     (case h r of
        None \<Rightarrow> (Some TypeError, h, w, n)
      | Some msg \<Rightarrow>
          (let msg1 = (if \<not> truthy (msg ''sessionId'')
                       then msg(''sessionId'' \<mapsto> JStr sessionId) else msg);
               msg2 = (if \<not> truthy (msg1 ''id'')
                       then msg1(''id'' \<mapsto> JStr (msg_id sessionId (now n) (rnd n))) else msg1);
               n' = (if \<not> truthy (msg1 ''id'') then Suc n else n);
               h' = h(r \<mapsto> msg2)
           in case to_key (msg2 ''id'') of
                None \<Rightarrow> (Some DataError, h', w, n')
              | Some k \<Rightarrow> insert_messages sessionId now rnd rs h' (tx_add k msg2 w) n'))"

text \<open>
  \<open>saveMessages\<close>: one transaction on \<open>messages\<close>. A cursor over the \<open>sessionId\<close>
  index deletes the session's rows, then the loop above runs. When the loop throws, the
  promise is rejected with the exception, and the transaction still commits what was
  requested before. When a request fails, the transaction aborts and the promise is
  rejected from \<open>tx.onerror\<close>; the cause stands for the rejection value here.
\<close>

definition saveMessages ::
  "jsstring \<Rightarrow> ref list \<Rightarrow> (nat \<Rightarrow> int) \<Rightarrow> (nat \<Rightarrow> jsstring) \<Rightarrow> heap \<Rightarrow> db \<Rightarrow>
   outcome \<times> heap \<times> db" where
  "saveMessages sessionId msgs now rnd h d =
     (let w0 = Inr (cursor_delete (\<lambda>m. m ''sessionId'' = Some (JStr sessionId)) (messages d))
      in case insert_messages sessionId now rnd msgs h w0 0 of
           (thrown, h', w, n) \<Rightarrow>
             (case w of
                Inl e \<Rightarrow>
                  ((case thrown of Some x \<Rightarrow> Rejected x | None \<Rightarrow> Rejected e), h', d)
              | Inr st \<Rightarrow>
                  ((case thrown of Some x \<Rightarrow> Rejected x | None \<Rightarrow> Resolved), h',
                   d\<lparr>messages := st\<rparr>)))"

definition saveMessages_transactions ::
  "jsstring \<Rightarrow> ref list \<Rightarrow> (nat \<Rightarrow> int) \<Rightarrow> (nat \<Rightarrow> jsstring) \<Rightarrow> heap \<Rightarrow> (db \<Rightarrow> db) list" where
  "saveMessages_transactions sessionId msgs now rnd h =
     [\<lambda>d. snd (snd (saveMessages sessionId msgs now rnd h d))]"

text \<open>The rows that \<open>index.getAll(IDBKeyRange.only(sessionId))\<close> returns on \<open>messages\<close>.\<close>

definition messages_of :: "jsstring \<Rightarrow> db \<Rightarrow> obj list" where
  "messages_of sessionId d = getAll (\<lambda>m. m ''sessionId'' = Some (JStr sessionId)) (messages d)"

text \<open>
  \<open>addMessage\<close> makes the same two assignments on the caller's object before the promise
  is built, and calls \<open>store.add\<close> inside the executor, so that what \<open>add\<close> throws
  rejects the promise. It resolves to the key of the row.
\<close>

definition addMessage ::
  "jsstring \<Rightarrow> ref \<Rightarrow> int \<Rightarrow> jsstring \<Rightarrow> heap \<Rightarrow> db \<Rightarrow> (error + idb_key) \<times> heap \<times> db" where
  "addMessage sessionId r now rnd h d =
     (case h r of
        None \<Rightarrow> (Inl TypeError, h, d)
      | Some message \<Rightarrow>
          (let message1 = (if \<not> truthy (message ''sessionId'')
                           then message(''sessionId'' \<mapsto> JStr sessionId) else message);
               message2 = (if \<not> truthy (message1 ''id'')
                           then message1(''id'' \<mapsto> JStr (msg_id sessionId now rnd))
                           else message1);
               h' = h(r \<mapsto> message2)
           in case to_key (message2 ''id'') of
                None \<Rightarrow> (Inl DataError, h', d)
              | Some k \<Rightarrow>
                  (case add k message2 (messages d) of
                     Inl e \<Rightarrow> (Inl e, h', d)
                   | Inr st \<Rightarrow> (Inr k, h', d\<lparr>messages := st\<rparr>))))"

section \<open>Custom replies\<close>

text \<open>
  The value of a property read: \<open>undefined\<close> when the object has no such property.
\<close>

definition read_prop :: "obj \<Rightarrow> string \<Rightarrow> jsval" where
  "read_prop ob f = (case ob f of None \<Rightarrow> JUndefined | Some v \<Rightarrow> v)"

definition reply_id :: "jsstring \<Rightarrow> int \<Rightarrow> nat \<Rightarrow> jsstring" where
  "reply_id sessionId now idx = sessionId @ js ''_reply_'' @ dec_int now @ js ''_'' @ dec_nat idx"

text \<open>
  The \<open>forEach\<close> of \<open>saveCustomReplies\<close>, from index \<open>idx\<close> on. The object literal reads
  \<open>Date.now()\<close> twice, for the id and for the timestamp: \<open>now (2 * idx)\<close> and
  \<open>now (2 * idx + 1)\<close> are the two readings for the reply at \<open>idx\<close>.
\<close>

fun insert_replies ::
  "jsstring \<Rightarrow> (nat \<Rightarrow> int) \<Rightarrow> nat \<Rightarrow> obj list \<Rightarrow> error + reply store \<Rightarrow> error + reply store" where
  "insert_replies sessionId now idx [] w = w"
| "insert_replies sessionId now idx (reply # rest) w =
     (let item = \<lparr>id_rep = reply_id sessionId (now (2 * idx)) idx,
                  sessionId_rep = sessionId,
                  text_rep = read_prop reply ''text'',
                  enabled_rep = (reply ''enabled'' \<noteq> Some (JBool False)),
                  timestamp_rep = now (2 * idx + 1)\<rparr>
      in insert_replies sessionId now (Suc idx) rest (tx_add (KStr (id_rep item)) item w))"

definition saveCustomReplies ::
  "jsstring \<Rightarrow> obj list \<Rightarrow> (nat \<Rightarrow> int) \<Rightarrow> db \<Rightarrow> outcome \<times> db" where
  "saveCustomReplies sessionId replies now d =
     (let w0 = Inr (cursor_delete (\<lambda>r. sessionId_rep r = sessionId) (customReplies d))
      in case insert_replies sessionId now 0 replies w0 of
           Inl e \<Rightarrow> (Rejected e, d)
         | Inr st \<Rightarrow> (Resolved, d\<lparr>customReplies := st\<rparr>))"

text \<open>
  \<open>Array.prototype.sort\<close> with a comparison function: a stable sort, \<open>x\<close> placed before
  \<open>y\<close> when \<open>cmp x y \<le> 0\<close> and \<open>x\<close> came first. For a comparison function that is
  a consistent order, as a difference of integer timestamps is, this is the result every
  conforming engine returns.
\<close>

fun insort_cmp :: "('a \<Rightarrow> 'a \<Rightarrow> int) \<Rightarrow> 'a \<Rightarrow> 'a list \<Rightarrow> 'a list" where
  "insort_cmp cmp x [] = [x]"
| "insort_cmp cmp x (y # ys) =
     (if cmp x y \<le> 0 then x # y # ys else y # insort_cmp cmp x ys)"

definition js_sort :: "('a \<Rightarrow> 'a \<Rightarrow> int) \<Rightarrow> 'a list \<Rightarrow> 'a list" where
  "js_sort cmp xs = foldr (insort_cmp cmp) xs []"

text \<open>
  \<open>loadCustomReplies\<close>: the rows of the session from the \<open>sessionId\<close> index, those
  with \<open>enabled !== false\<close>, sorted by \<open>b.timestamp - a.timestamp\<close>, each mapped to
  \<open>{ text, id }\<close>. \<open>sortedReplies\<close> is the array before the final \<open>map\<close>.
\<close>

record reply_entry =
  text_ent :: jsval
  id_ent :: jsstring

definition sortedReplies :: "jsstring \<Rightarrow> db \<Rightarrow> reply list" where
  "sortedReplies sessionId d =
     js_sort (\<lambda>a b. timestamp_rep b - timestamp_rep a)
       (filter (\<lambda>r. enabled_rep r \<noteq> False)
          (getAll (\<lambda>r. sessionId_rep r = sessionId) (customReplies d)))"

definition loadCustomReplies :: "jsstring \<Rightarrow> db \<Rightarrow> reply_entry list" where
  "loadCustomReplies sessionId d =
     map (\<lambda>r. \<lparr>text_ent = text_rep r, id_ent = id_rep r\<rparr>) (sortedReplies sessionId d)"

section \<open>Anniversaries\<close>

definition ann_id :: "jsstring \<Rightarrow> int \<Rightarrow> nat \<Rightarrow> jsstring" where
  "ann_id sessionId now idx = sessionId @ js ''_ann_'' @ dec_int now @ js ''_'' @ dec_nat idx"

text \<open>
  The \<open>forEach\<close> of \<open>saveAnniversaries\<close>; \<open>ann.type || 'anniversary'\<close> keeps a truthy
  \<open>type\<close> and replaces a falsy one.
\<close>

fun insert_anniversaries ::
  "jsstring \<Rightarrow> (nat \<Rightarrow> int) \<Rightarrow> nat \<Rightarrow> obj list \<Rightarrow> error + anniversary store \<Rightarrow>
   error + anniversary store" where
  "insert_anniversaries sessionId now idx [] w = w"
| "insert_anniversaries sessionId now idx (ann # rest) w =
     (let item = \<lparr>id_ann = ann_id sessionId (now (2 * idx)) idx,
                  sessionId_ann = sessionId,
                  name_ann = read_prop ann ''name'',
                  date_ann = read_prop ann ''date'',
                  type_ann = (if truthy (ann ''type'') then read_prop ann ''type''
                              else JStr (js ''anniversary'')),
                  createdAt_ann = now (2 * idx + 1)\<rparr>
      in insert_anniversaries sessionId now (Suc idx) rest (tx_add (KStr (id_ann item)) item w))"

definition saveAnniversaries ::
  "jsstring \<Rightarrow> obj list \<Rightarrow> (nat \<Rightarrow> int) \<Rightarrow> db \<Rightarrow> outcome \<times> db" where
  "saveAnniversaries sessionId anns now d =
     (let w0 = Inr (cursor_delete (\<lambda>a. sessionId_ann a = sessionId) (anniversaries d))
      in case insert_anniversaries sessionId now 0 anns w0 of
           Inl e \<Rightarrow> (Rejected e, d)
         | Inr st \<Rightarrow> (Resolved, d\<lparr>anniversaries := st\<rparr>))"

section \<open>The connection\<close>

text \<open>
  \<open>open\<close> calls \<open>indexedDB.open\<close> each time it is called and stores the connection in
  \<open>this.db\<close> when the request succeeds. Every accessor starts with
  \<open>if (!this.db) await this.open()\<close>. Calls and completions interleave as events of the
  single thread. Connections are numbered as they are made; the stored database has a
  version, 0 before it exists, and the upgrade handler runs for a request that finds a
  version below \<open>dbVersion\<close>; a request that finds a higher one fails.
\<close>

record connection =
  this_db :: "nat option"
  pending :: nat
  connections :: nat
  stored_version :: nat
  upgrades :: nat

definition dbVersion :: nat where
  "dbVersion = 2"

datatype event = CallOpen | CallGetSessions | RequestDone

definition open_call :: "connection \<Rightarrow> connection" where
  "open_call c = c\<lparr>pending := pending c + 1\<rparr>"

fun step :: "connection \<Rightarrow> event \<Rightarrow> connection" where
  "step c CallOpen = open_call c"
| "step c CallGetSessions = (if this_db c = None then open_call c else c)"
| "step c RequestDone =
     (if pending c = 0 then c
      else if stored_version c > dbVersion then c\<lparr>pending := pending c - 1\<rparr>
      else c\<lparr>pending := pending c - 1,
             this_db := Some (connections c),
             connections := connections c + 1,
             upgrades := (if stored_version c < dbVersion then upgrades c + 1 else upgrades c),
             stored_version := dbVersion\<rparr>)"

definition ChatDatabase :: connection where
  "ChatDatabase = \<lparr>this_db = None, pending = 0, connections = 0, stored_version = 0, upgrades = 0\<rparr>"

section \<open>Invariants and auxiliary notions\<close>

text \<open>
  What every row that \<open>saveResource\<close> writes satisfies, in a store with one row per key:
  the row is stored under its \<open>id\<close>, and the \<open>id\<close> is the template literal of its
  \<open>sessionId\<close>, \<open>type\<close> and \<open>key\<close>.
\<close>

definition resources_inv :: "resource store \<Rightarrow> bool" where
  "resources_inv st =
     (wf_store st \<and>
      (\<forall>(i, r) \<in> set st. i = KStr (id_res r) \<and>
          id_res r = resource_id (sessionId_res r) (type_res r) (key_res r)))"

text \<open>
  What \<open>deleteSession\<close> leaves of a session: no session row, no settings row, no row
  of \<open>messages\<close>, \<open>customReplies\<close> or \<open>anniversaries\<close> with the session id, and no row
  of \<open>resources\<close> with the session id whose type is within the cursor's upper bound.
\<close>

definition cascade_gone :: "jsstring \<Rightarrow> db \<Rightarrow> bool" where
  "cascade_gone S d =
     (get (KStr S) (sessions d) = None \<and>
      (\<forall>(k, m) \<in> set (messages d). m ''sessionId'' \<noteq> Some (JStr S)) \<and>
      (\<forall>(k, r) \<in> set (resources d). sessionId_res r = S \<longrightarrow> \<not> type_res r \<le> [0xFFFF]) \<and>
      get (KStr S) (settings d) = None \<and>
      (\<forall>(k, r) \<in> set (customReplies d). sessionId_rep r \<noteq> S) \<and>
      (\<forall>(k, a) \<in> set (anniversaries d). sessionId_ann a \<noteq> S))"

text \<open>
  For the proofs: the object that the two assignments of the loop leave, \<open>gen\<close> being
  the id generated for it, and the objects that they leave as they are.
\<close>

definition with_defaults :: "jsstring \<Rightarrow> jsstring \<Rightarrow> obj \<Rightarrow> obj" where
  "with_defaults sessionId gen msg =
     (let msg1 = (if \<not> truthy (msg ''sessionId'')
                  then msg(''sessionId'' \<mapsto> JStr sessionId) else msg)
      in if \<not> truthy (msg1 ''id'') then msg1(''id'' \<mapsto> JStr gen) else msg1)"

definition settled :: "jsstring \<Rightarrow> obj \<Rightarrow> bool" where
  "settled sessionId msg =
     (truthy (msg ''id'') \<and>
      (truthy (msg ''sessionId'') \<or> msg ''sessionId'' = Some (JStr sessionId)))"

text \<open>
  For the proofs about generated ids: the decimal digits, the number a digit string
  writes, and the objects to which a run of the loop of \<open>saveMessages\<close> gave an id
  (those that had a falsy \<open>id\<close> and were changed).
\<close>

definition is_digit :: "16 word \<Rightarrow> bool" where
  "is_digit c = (48 \<le> c \<and> c \<le> 57)"

definition undec :: "jsstring \<Rightarrow> nat" where
  "undec s = foldl (\<lambda>a c. 10 * a + (unat c - 48)) 0 s"

definition got_id :: "heap \<Rightarrow> heap \<Rightarrow> ref \<Rightarrow> bool" where
  "got_id h h' r = (\<exists>m. h r = Some m \<and> \<not> truthy (m ''id'') \<and> h' r \<noteq> h r)"

text \<open>
  What every row that \<open>saveCustomReplies\<close> and \<open>saveAnniversaries\<close> write satisfies:
  the row is stored under its \<open>id\<close>, and the \<open>id\<close> is the template literal of its own
  \<open>sessionId\<close> with some clock reading and index.
\<close>

definition replies_inv :: "reply store \<Rightarrow> bool" where
  "replies_inv st =
     (\<forall>(k, r) \<in> set st. k = KStr (id_rep r) \<and>
        (\<exists>t i. id_rep r = reply_id (sessionId_rep r) t i))"

definition anniversaries_inv :: "anniversary store \<Rightarrow> bool" where
  "anniversaries_inv st =
     (\<forall>(k, a) \<in> set st. k = KStr (id_ann a) \<and>
        (\<exists>t i. id_ann a = ann_id (sessionId_ann a) t i))"

section \<open>Example data\<close>

text \<open>The database after the upgrade: six stores, no rows; and one with the session \<open>s1\<close>.\<close>

definition empty_db :: db where
  "empty_db = \<lparr>sessions = [], messages = [], resources = [], settings = [],
                customReplies = [], anniversaries = []\<rparr>"

definition db_s1 :: db where
  "db_s1 = empty_db\<lparr>sessions := [(KStr (js ''s1''), [''id'' \<mapsto> JStr (js ''s1'')])]\<rparr>"

text \<open>The session \<open>s1\<close> with the setting \<open>theme: 'dark'\<close> saved.\<close>

definition db_dark :: db where
  "db_dark = snd (saveSettings (js ''s1'') [''theme'' \<mapsto> JStr (js ''dark'')] empty_db)"

text \<open>
  Two sessions; \<open>s1\<close> has a message, an avatar, settings, a custom reply and an
  anniversary, \<open>s2\<close> has a message.
\<close>

definition db_full :: db where
  "db_full =
     \<lparr>sessions = [(KStr (js ''s1''), [''id'' \<mapsto> JStr (js ''s1'')]),
                  (KStr (js ''s2''), [''id'' \<mapsto> JStr (js ''s2'')])],
      messages = [(KStr (js ''m1''), [''id'' \<mapsto> JStr (js ''m1''),
                     ''sessionId'' \<mapsto> JStr (js ''s1''), ''text'' \<mapsto> JStr (js ''hi'')]),
                  (KStr (js ''m2''), [''id'' \<mapsto> JStr (js ''m2''),
                     ''sessionId'' \<mapsto> JStr (js ''s2''), ''text'' \<mapsto> JStr (js ''yo'')])],
      resources = [(KStr (js ''s1_avatar_main''),
                     \<lparr>id_res = js ''s1_avatar_main'', sessionId_res = js ''s1'',
                      type_res = js ''avatar'', key_res = js ''main'',
                      data_res = JStr (js ''blob''), timestamp_res = 1000\<rparr>)],
      settings = [(KStr (js ''s1''), [''sessionId'' \<mapsto> JStr (js ''s1''),
                     ''theme'' \<mapsto> JStr (js ''dark'')])],
      customReplies = [(KStr (js ''s1_reply_1000_0''),
                     \<lparr>id_rep = js ''s1_reply_1000_0'', sessionId_rep = js ''s1'',
                      text_rep = JStr (js ''ok''), enabled_rep = True, timestamp_rep = 1000\<rparr>)],
      anniversaries = [(KStr (js ''s1_ann_1000_0''),
                     \<lparr>id_ann = js ''s1_ann_1000_0'', sessionId_ann = js ''s1'',
                      name_ann = JStr (js ''first''), date_ann = JStr (js ''2024-01-01''),
                      type_ann = JStr (js ''anniversary''), createdAt_ann = 1000\<rparr>)]\<rparr>"

text \<open>
  The session \<open>s1\<close> with one resource whose type is the two code units \<open>0xFFFF\<close>,
  \<open>0x61\<close>.
\<close>

definition db_uffff :: db where
  "db_uffff = snd (saveResource (js ''s1'') [0xFFFF, 0x61] (js ''bg'') (JStr (js ''blob'')) 1000 db_s1)"

text \<open>
  Heaps for the examples: two messages without \<open>sessionId\<close> and \<open>id\<close>; a message
  that carries the id of another session; a message whose \<open>id\<close> is the number 0.
  \<open>rnd_ab\<close> gives two different suffixes.
\<close>

definition heap_ab :: heap where
  "heap_ab = [0 \<mapsto> [''text'' \<mapsto> JStr (js ''hi''), ''timestamp'' \<mapsto> JNum 100],
              1 \<mapsto> [''text'' \<mapsto> JStr (js ''yo''), ''timestamp'' \<mapsto> JNum 50]]"

definition rnd_ab :: "nat \<Rightarrow> jsstring" where
  "rnd_ab n = (if n = 0 then js ''k3x9'' else js ''p07q'')"

definition heap_foreign :: heap where
  "heap_foreign = [0 \<mapsto> [''sessionId'' \<mapsto> JStr (js ''s2''), ''text'' \<mapsto> JStr (js ''hi'')]]"

definition heap_zero :: heap where
  "heap_zero = [0 \<mapsto> [''id'' \<mapsto> JNum 0, ''text'' \<mapsto> JStr (js ''hi'')]]"

text \<open>
  Custom replies of \<open>s1\<close> with the timestamps 1000, 3000 (disabled) and 2000, and one
  of \<open>s2\<close>.
\<close>

definition db_replies :: db where
  "db_replies = empty_db\<lparr>customReplies :=
     [(KStr (js ''s1_reply_1000_0''),
         \<lparr>id_rep = js ''s1_reply_1000_0'', sessionId_rep = js ''s1'',
          text_rep = JStr (js ''first''), enabled_rep = True, timestamp_rep = 1000\<rparr>),
      (KStr (js ''s1_reply_1000_1''),
         \<lparr>id_rep = js ''s1_reply_1000_1'', sessionId_rep = js ''s1'',
          text_rep = JStr (js ''off''), enabled_rep = False, timestamp_rep = 3000\<rparr>),
      (KStr (js ''s1_reply_1000_2''),
         \<lparr>id_rep = js ''s1_reply_1000_2'', sessionId_rep = js ''s1'',
          text_rep = JStr (js ''latest''), enabled_rep = True, timestamp_rep = 2000\<rparr>),
      (KStr (js ''s2_reply_1000_0''),
         \<lparr>id_rep = js ''s2_reply_1000_0'', sessionId_rep = js ''s2'',
          text_rep = JStr (js ''other''), enabled_rep = True, timestamp_rep = 5000\<rparr>)]\<rparr>"

section \<open>Properties of the store operations\<close>

lemma cursor_delete_filter: "cursor_delete in_range st = filter (\<lambda>(k, v). \<not> in_range v) st"
  by (induction st) auto

lemma map_of_put: "map_of (put k v st) = (map_of st)(k \<mapsto> v)"
  by (induction st) (auto simp: fun_eq_iff)

lemma get_put: "get k' (put k v st) = (if k' = k then Some v else get k' st)"
  by (simp add: get_def map_of_put)

lemma fst_set_put: "fst ` set (put k v st) = insert k (fst ` set st)"
  by (induction st) (force split: if_splits)+

lemma wf_store_put: "wf_store st \<Longrightarrow> wf_store (put k v st)"
proof (induction st)
  case Nil
  then show ?case by (simp add: wf_store_def)
next
  case (Cons a st)
  obtain k' v' where a: "a = (k', v')" by (cases a)
  from Cons.prems have tl: "wf_store st" and hd: "\<forall>x \<in> fst ` set st. k' < x"
    by (auto simp: wf_store_def a)
  have "\<forall>x \<in> fst ` set (put k v st). k' < x" if "k' < k"
    using hd that by (simp add: fst_set_put)
  with Cons.IH [OF tl] Cons.prems show ?case
    by (auto simp: wf_store_def a)
qed

lemma wf_store_distinct: "wf_store st \<Longrightarrow> distinct (map fst st)"
  unfolding wf_store_def by (simp add: strict_sorted_iff)

lemma set_put_wf:
  "wf_store st \<Longrightarrow> set (put k v st) = insert (k, v) {e \<in> set st. fst e \<noteq> k}"
proof (induction st)
  case Nil
  then show ?case by simp
next
  case (Cons a st)
  obtain k' v' where a: "a = (k', v')" by (cases a)
  from Cons.prems have tl: "wf_store st" and hd: "\<forall>x \<in> fst ` set st. k' < x"
    by (auto simp: wf_store_def a)
  show ?case using Cons.IH [OF tl] hd by (auto simp: a)
qed

lemma idb_key_less_simps [simp]:
  "KNum a < KNum b \<longleftrightarrow> a < b"
  "KNum a < KStr s \<longleftrightarrow> True"
  "KStr s < KNum a \<longleftrightarrow> False"
  "KStr s < KStr u \<longleftrightarrow> s < u"
  by (auto simp: less_idb_key_def)

lemma idb_key_le_simps [simp]:
  "KNum a \<le> KNum b \<longleftrightarrow> a \<le> b"
  "KNum a \<le> KStr s \<longleftrightarrow> True"
  "KStr s \<le> KNum a \<longleftrightarrow> False"
  "KStr s \<le> KStr u \<longleftrightarrow> s \<le> u"
  by (auto simp: less_eq_idb_key_def)

lemma put_mem: "(k, v) \<in> set (put k v st)"
  by (induction st) auto

lemma wf_store_unique:
  "wf_store st \<Longrightarrow> (k, v) \<in> set st \<Longrightarrow> (k, v') \<in> set st \<Longrightarrow> v = v'"
  by (rule eq_key_imp_eq_value [OF wf_store_distinct])

lemma filter_key_wf:
  "wf_store st \<Longrightarrow> (k, v) \<in> set st \<Longrightarrow> filter (\<lambda>e. fst e = k) st = [(k, v)]"
proof (induction st)
  case Nil
  then show ?case by simp
next
  case (Cons a st)
  obtain k' v' where a: "a = (k', v')" by (cases a)
  from Cons.prems have tl: "wf_store st" and hd: "\<forall>x \<in> fst ` set st. k' < x"
    by (auto simp: wf_store_def a)
  show ?case
  proof (cases "k' = k")
    case True
    with hd have "\<forall>e \<in> set st. fst e \<noteq> k" by auto
    then have "filter (\<lambda>e. fst e = k) st = []" by (simp add: filter_empty_conv)
    moreover from True hd Cons.prems(2) have "v' = v" by (auto simp: a)
    ultimately show ?thesis using True by (simp add: a)
  next
    case False
    with Cons.prems(2) have "(k, v) \<in> set st" by (auto simp: a)
    from Cons.IH [OF tl this] False show ?thesis by (simp add: a)
  qed
qed

subsection \<open>The invariant of the resources store\<close>

lemma resources_inv_put:
  assumes "resources_inv st"
  shows "resources_inv (put (KStr (resource_id S t k))
           \<lparr>id_res = resource_id S t k, sessionId_res = S, type_res = t, key_res = k,
            data_res = x, timestamp_res = n\<rparr> st)"
proof -
  from assms have wf: "wf_store st" by (simp add: resources_inv_def)
  show ?thesis
    using assms unfolding resources_inv_def
    by (auto simp: wf_store_put set_put_wf [OF wf])
qed

lemma resources_inv_saveResource:
  "resources_inv (resources d) \<Longrightarrow> resources_inv (resources (snd (saveResource S t k x n d)))"
  by (simp add: saveResource_def Let_def resources_inv_put)

lemma resources_inv_empty: "resources_inv (resources empty_db)"
  by (simp add: resources_inv_def empty_db_def wf_store_def)

subsection \<open>The cascade\<close>

lemma get_delete: "get k (delete k st) = None"
  by (auto simp: get_def delete_def map_of_eq_None_iff)

lemma le_uffff_iff:
  "(t :: jsstring) \<le> [0xFFFF] \<longleftrightarrow> t = [] \<or> hd t < 0xFFFF \<or> t = [0xFFFF]"
proof (cases t)
  case Nil
  then show ?thesis by simp
next
  case (Cons c cs)
  have "(0xFFFF :: 16 word) = - 1" by simp
  then have "c \<le> 0xFFFF" by (metis word_n1_ge)
  then show ?thesis using Cons by (cases cs) (auto simp: less_le)
qed

lemma in_range_iff:
  "([S, []] \<le> [sid, t] \<and> [sid, t] \<le> [S, [0xFFFF]])
     \<longleftrightarrow> (sid = S \<and> t \<le> ([0xFFFF] :: jsstring))"
  for S sid :: jsstring
  by (cases t) auto

lemma deleteSession_tx_resources:
  "resources (deleteSession_tx S d)
     = cursor_delete (\<lambda>r. sessionId_res r = S \<and> type_res r \<le> [0xFFFF]) (resources d)"
  unfolding deleteSession_tx_def Let_def in_range_iff by simp

lemma deleteSession_tx_others:
  "sessions (deleteSession_tx S d) = delete (KStr S) (sessions d)"
  "messages (deleteSession_tx S d)
     = cursor_delete (\<lambda>m. m ''sessionId'' = Some (JStr S)) (messages d)"
  "settings (deleteSession_tx S d) = delete (KStr S) (settings d)"
  "customReplies (deleteSession_tx S d)
     = cursor_delete (\<lambda>r. sessionId_rep r = S) (customReplies d)"
  "anniversaries (deleteSession_tx S d)
     = cursor_delete (\<lambda>a. sessionId_ann a = S) (anniversaries d)"
  by (simp_all add: deleteSession_tx_def Let_def)

lemma deleteSession_tx_gone: "cascade_gone S (deleteSession_tx S d)"
  unfolding cascade_gone_def deleteSession_tx_resources deleteSession_tx_others
  by (auto simp: get_delete cursor_delete_filter)

lemma wf_store_filter: "wf_store st \<Longrightarrow> wf_store (filter P st)"
  unfolding wf_store_def by (induction st) auto

lemma resources_inv_deleteSession:
  "resources_inv (resources d) \<Longrightarrow> resources_inv (resources (snd (deleteSession S d)))"
  by (auto simp: deleteSession_def deleteSession_transactions_def deleteSession_tx_resources
      resources_inv_def cursor_delete_filter wf_store_filter)

subsection \<open>The loop of saveMessages\<close>

lemma insert_messages_Cons:
  "insert_messages S now rnd (r # rs) h w n =
     (case h r of
        None \<Rightarrow> (Some TypeError, h, w, n)
      | Some msg \<Rightarrow>
          (case to_key (with_defaults S (msg_id S (now n) (rnd n)) msg ''id'') of
             None \<Rightarrow> (Some DataError, h(r \<mapsto> with_defaults S (msg_id S (now n) (rnd n)) msg), w,
                       if truthy (msg ''id'') then n else Suc n)
           | Some k \<Rightarrow>
               insert_messages S now rnd rs
                 (h(r \<mapsto> with_defaults S (msg_id S (now n) (rnd n)) msg))
                 (tx_add k (with_defaults S (msg_id S (now n) (rnd n)) msg) w)
                 (if truthy (msg ''id'') then n else Suc n)))"
  by (simp add: with_defaults_def Let_def split: option.splits)

lemma with_defaults_settled: "settled S msg \<Longrightarrow> with_defaults S gen msg = msg"
  by (auto simp: settled_def with_defaults_def Let_def)

lemma settled_with_defaults: "gen \<noteq> [] \<Longrightarrow> settled S (with_defaults S gen msg)"
  by (auto simp: settled_def with_defaults_def Let_def)

lemma msg_id_nonempty: "msg_id S t r \<noteq> []"
  by (simp add: msg_id_def js_def)

lemma with_defaults_other:
  "f \<noteq> ''sessionId'' \<Longrightarrow> f \<noteq> ''id'' \<Longrightarrow> with_defaults S gen msg f = msg f"
  by (simp add: with_defaults_def Let_def)

lemma with_defaults_sessionId:
  "with_defaults S gen msg ''sessionId''
     = (if truthy (msg ''sessionId'') then msg ''sessionId'' else Some (JStr S))"
  by (simp add: with_defaults_def Let_def)

lemma with_defaults_id:
  "with_defaults S gen msg ''id'' = (if truthy (msg ''id'') then msg ''id'' else Some (JStr gen))"
  by (simp add: with_defaults_def Let_def)

lemma addMessage_heap:
  "h r = Some message \<Longrightarrow>
   fst (snd (addMessage S r now rnd h d)) = h(r \<mapsto> with_defaults S (msg_id S now rnd) message)"
  by (simp add: addMessage_def with_defaults_def Let_def split: option.splits sum.splits)

lemma insert_messages_Inl:
  "insert_messages S now rnd msgs h (Inl e) n = (x, h', w, n') \<Longrightarrow> w = Inl e"
proof (induction msgs arbitrary: h n)
  case Nil
  then show ?case by simp
next
  case (Cons r rs)
  then show ?case
    by (auto simp: insert_messages_Cons tx_add_def simp del: insert_messages.simps
        split: option.splits)
qed

lemma insert_messages_settled:
  "insert_messages S now rnd msgs h w n = (x, h', w', n') \<Longrightarrow>
   h r = Some m \<Longrightarrow> settled S m \<Longrightarrow> h' r = Some m"
proof (induction msgs arbitrary: h w n)
  case Nil
  then show ?case by simp
next
  case (Cons r0 rs)
  show ?case
  proof (cases "h r0")
    case None
    with Cons.prems show ?thesis by (simp add: insert_messages_Cons del: insert_messages.simps)
  next
    case (Some msg)
    let ?m2 = "with_defaults S (msg_id S (now n) (rnd n)) msg"
    have h1: "(h(r0 \<mapsto> ?m2)) r = Some m"
      using Cons.prems(2,3) Some by (auto simp: with_defaults_settled)
    show ?thesis
    proof (cases "to_key (?m2 ''id'')")
      case None
      with Cons.prems(1) Some h1 show ?thesis
        by (simp add: insert_messages_Cons del: insert_messages.simps)
    next
      case (Some k)
      with Cons.prems(1) \<open>h r0 = Some msg\<close>
      have "insert_messages S now rnd rs (h(r0 \<mapsto> ?m2)) (tx_add k ?m2 w)
              (if truthy (msg ''id'') then n else Suc n) = (x, h', w', n')"
        by (simp add: insert_messages_Cons del: insert_messages.simps)
      from Cons.IH [OF this h1 Cons.prems(3)] show ?thesis .
    qed
  qed
qed

lemma insert_messages_frame:
  "insert_messages S now rnd msgs h w n = (x, h', w', n') \<Longrightarrow> r \<notin> set msgs \<Longrightarrow> h' r = h r"
proof (induction msgs arbitrary: h w n)
  case Nil
  then show ?case by simp
next
  case (Cons r0 rs)
  then show ?case
    by (auto simp: insert_messages_Cons simp del: insert_messages.simps split: option.splits)
qed

lemma insert_messages_thrown:
  "insert_messages S now rnd msgs h w n = (x, h', w', n') \<Longrightarrow>
   x = None \<or> x = Some TypeError \<or> x = Some DataError"
proof (induction msgs arbitrary: h w n)
  case Nil
  then show ?case by simp
next
  case (Cons r0 rs)
  then show ?case
    by (auto simp: insert_messages_Cons simp del: insert_messages.simps split: option.splits)
qed

lemma insert_messages_visited:
  "insert_messages S now rnd msgs h w n = (None, h', w', n') \<Longrightarrow> r \<in> set msgs \<Longrightarrow>
   \<exists>m j. h r = Some m \<and> h' r = Some (with_defaults S (msg_id S (now j) (rnd j)) m)"
proof (induction msgs arbitrary: h w n)
  case Nil
  then show ?case by simp
next
  case (Cons r0 rs)
  from Cons.prems(1) obtain msg where msg: "h r0 = Some msg"
    by (cases "h r0") (simp_all add: insert_messages_Cons del: insert_messages.simps)
  let ?m2 = "with_defaults S (msg_id S (now n) (rnd n)) msg"
  from Cons.prems(1) msg obtain k where k: "to_key (?m2 ''id'') = Some k"
    by (cases "to_key (?m2 ''id'')") (simp_all add: insert_messages_Cons del: insert_messages.simps)
  from Cons.prems(1) msg k
  have run: "insert_messages S now rnd rs (h(r0 \<mapsto> ?m2)) (tx_add k ?m2 w)
               (if truthy (msg ''id'') then n else Suc n) = (None, h', w', n')"
    by (simp add: insert_messages_Cons del: insert_messages.simps)
  show ?case
  proof (cases "r = r0")
    case True
    have "h' r0 = Some ?m2"
      by (rule insert_messages_settled [OF run]) (simp_all add: settled_with_defaults msg_id_nonempty)
    with True msg show ?thesis by blast
  next
    case False
    with Cons.prems(2) have "r \<in> set rs" by simp
    from Cons.IH [OF run this] False show ?thesis by simp
  qed
qed

lemma get_None_iff: "get k st = None \<longleftrightarrow> k \<notin> fst ` set st"
  by (simp add: get_def map_of_eq_None_iff)

lemma put_fresh_mset:
  "get k st = None \<Longrightarrow> mset (put k v st) = add_mset (k, v) (mset st)"
  by (induction st) (auto simp: get_None_iff)

lemma insert_messages_rows:
  "insert_messages S now rnd msgs h (Inr st) n = (None, h', Inr st', n') \<Longrightarrow>
   \<exists>rows. map h' msgs = map Some rows \<and> mset (map snd st') = mset (map snd st) + mset rows"
proof (induction msgs arbitrary: h st n)
  case Nil
  then show ?case by simp
next
  case (Cons r0 rs)
  from Cons.prems(1) obtain msg where msg: "h r0 = Some msg"
    by (cases "h r0") (simp_all add: insert_messages_Cons del: insert_messages.simps)
  let ?m2 = "with_defaults S (msg_id S (now n) (rnd n)) msg"
  from Cons.prems(1) msg obtain k where k: "to_key (?m2 ''id'') = Some k"
    by (cases "to_key (?m2 ''id'')") (simp_all add: insert_messages_Cons del: insert_messages.simps)
  from Cons.prems(1) msg k
  have run: "insert_messages S now rnd rs (h(r0 \<mapsto> ?m2)) (tx_add k ?m2 (Inr st))
               (if truthy (msg ''id'') then n else Suc n) = (None, h', Inr st', n')"
    by (simp add: insert_messages_Cons del: insert_messages.simps)
  have fresh: "get k st = None"
  proof (rule ccontr)
    assume "get k st \<noteq> None"
    then have "tx_add k ?m2 (Inr st) = Inl ConstraintError" by (simp add: tx_add_def add_def)
    with run insert_messages_Inl show False by fastforce
  qed
  then have w1: "tx_add k ?m2 (Inr st) = Inr (put k ?m2 st)" by (simp add: tx_add_def add_def)
  from Cons.IH [OF run [unfolded w1]] obtain rows where
    rows: "map h' rs = map Some rows" "mset (map snd st') = mset (map snd (put k ?m2 st)) + mset rows"
    by blast
  have "h' r0 = Some ?m2"
    by (rule insert_messages_settled [OF run]) (simp_all add: settled_with_defaults msg_id_nonempty)
  with rows fresh have "map h' (r0 # rs) = map Some (?m2 # rows) \<and>
      mset (map snd st') = mset (map snd st) + mset (?m2 # rows)"
    by (simp add: put_fresh_mset)
  then show ?case by blast
qed

lemma getAll_filter: "getAll P st = filter P (map snd st)"
  unfolding getAll_def
  by (induction st) (simp_all add: case_prod_beta)

lemma cursor_delete_none: "filter P (map snd (cursor_delete P st)) = []"
  unfolding cursor_delete_filter
  by (induction st) (simp_all add: case_prod_beta)

lemma dec_int_1000: "dec_int 1000 = js ''1000''"
  by code_simp

lemmas saveMessages_eval =
  saveMessages_def db_full_def rnd_ab_def cursor_delete_filter Let_def
  tx_add_def add_def get_def msg_id_def dec_int_1000 js_def messages_of_def getAll_def

lemma saveMessages_cases:
  assumes "saveMessages S msgs now rnd h d = (out, h', d')"
  obtains x w n where
    "insert_messages S now rnd msgs h
       (Inr (cursor_delete (\<lambda>m. m ''sessionId'' = Some (JStr S)) (messages d))) 0 = (x, h', w, n)"
    "out = Resolved \<longleftrightarrow> x = None \<and> (\<exists>st. w = Inr st \<and> d' = d\<lparr>messages := st\<rparr>)"
    "out = Rejected ConstraintError \<longrightarrow> x = None"
proof -
  obtain x h1 w n where run: "insert_messages S now rnd msgs h
       (Inr (cursor_delete (\<lambda>m. m ''sessionId'' = Some (JStr S)) (messages d))) 0 = (x, h1, w, n)"
    by (metis prod_cases4)
  from insert_messages_thrown [OF run] have x: "x = None \<or> x = Some TypeError \<or> x = Some DataError" .
  from assms run have h1: "h1 = h'"
    by (auto simp: saveMessages_def Let_def split: sum.splits option.splits)
  from assms run x have "out = Resolved \<longleftrightarrow> x = None \<and> (\<exists>st. w = Inr st \<and> d' = d\<lparr>messages := st\<rparr>)"
    by (auto simp: saveMessages_def Let_def split: sum.splits option.splits)
  moreover from assms run x have "out = Rejected ConstraintError \<longrightarrow> x = None"
    by (auto simp: saveMessages_def Let_def split: sum.splits option.splits)
  ultimately show ?thesis using that run h1 by blast
qed

subsection \<open>Generated ids\<close>

lemma digit_word: "d < 10 \<Longrightarrow> unat (of_nat (48 + d) :: 16 word) = 48 + d"
proof -
  assume d: "d < 10"
  have "unat (of_nat (48 + d) :: 16 word) = (48 + d) mod 2 ^ LENGTH(16)"
    by (rule unat_of_nat)
  also from d have "\<dots> = 48 + d" by simp
  finally show ?thesis .
qed

lemma is_digit_of_nat: "d < 10 \<Longrightarrow> is_digit (of_nat (48 + d))"
  unfolding is_digit_def word_le_nat_alt by (simp add: digit_word del: of_nat_add)

lemma dec_nat_digits: "\<forall>c \<in> set (dec_nat n). is_digit c"
proof (induction n rule: dec_nat.induct)
  case (1 n)
  show ?case
  proof (cases "n < 10")
    case True
    then show ?thesis by (subst dec_nat.simps) (simp add: is_digit_of_nat del: of_nat_add)
  next
    case False
    with 1 show ?thesis by (subst dec_nat.simps) (simp add: is_digit_of_nat del: of_nat_add)
  qed
qed

lemma undec_snoc: "undec (s @ [c]) = 10 * undec s + (unat c - 48)"
  by (simp add: undec_def)

lemma undec_dec_nat: "undec (dec_nat n) = n"
proof (induction n rule: dec_nat.induct)
  case (1 n)
  show ?case
  proof (cases "n < 10")
    case True
    then show ?thesis
      by (subst dec_nat.simps) (simp add: undec_def digit_word del: of_nat_add)
  next
    case False
    with 1 have "undec (dec_nat (n div 10)) = n div 10" by simp
    with False show ?thesis
      by (subst dec_nat.simps) (simp add: undec_snoc digit_word del: of_nat_add)
  qed
qed

lemma dec_nat_inj: "dec_nat m = dec_nat n \<Longrightarrow> m = n"
  by (metis undec_dec_nat)

lemma dec_nat_nonempty: "dec_nat n \<noteq> []"
  by (subst dec_nat.simps) simp

lemma js_minus: "js ''-'' = [45]" and js_underscore: "js ''_'' = [95]"
  by (simp_all add: js_def)

lemma is_digit_not_sep: "is_digit c \<Longrightarrow> c \<noteq> 95 \<and> c \<noteq> 45"
  by (auto simp: is_digit_def)

lemma dec_nat_no_sep: "95 \<notin> set (dec_nat n)"
  using dec_nat_digits [of n] is_digit_not_sep by blast

lemma dec_int_no_sep: "95 \<notin> set (dec_int i)"
  by (simp add: dec_int_def js_minus dec_nat_no_sep)

lemma dec_nat_hd: "\<exists>c cs. dec_nat n = c # cs \<and> is_digit c"
  using dec_nat_digits [of n] dec_nat_nonempty [of n] by (cases "dec_nat n") auto

lemma dec_int_inj: "dec_int i = dec_int j \<Longrightarrow> i = j"
proof -
  assume eq: "dec_int i = dec_int j"
  have neg_pos: False if "[45] @ dec_nat a = dec_nat b" for a b
  proof -
    from dec_nat_hd [of b] obtain c cs where "dec_nat b = c # cs" "is_digit c" by blast
    with that is_digit_not_sep [of c] show False by simp
  qed
  consider "i < 0" "j < 0" | "i < 0" "\<not> j < 0" | "\<not> i < 0" "j < 0" | "\<not> i < 0" "\<not> j < 0"
    by blast
  then show ?thesis
  proof cases
    case 1
    with eq have "nat (- i) = nat (- j)" by (auto simp: dec_int_def js_minus dest: dec_nat_inj)
    with 1 show ?thesis by simp
  next
    case 2
    with eq neg_pos [of "nat (- i)" "nat j"] show ?thesis by (simp add: dec_int_def js_minus)
  next
    case 3
    with eq neg_pos [of "nat (- j)" "nat i"] show ?thesis by (simp add: dec_int_def js_minus)
  next
    case 4
    with eq have "nat i = nat j" by (auto simp: dec_int_def dest: dec_nat_inj)
    with 4 show ?thesis by simp
  qed
qed

lemma split_at_sep:
  "sep \<notin> set x \<Longrightarrow> sep \<notin> set y \<Longrightarrow> x @ sep # s = y @ sep # s' \<Longrightarrow> x = y \<and> s = s'"
proof (induction x arbitrary: y)
  case Nil
  then show ?case by (cases y) auto
next
  case (Cons a x)
  then show ?case by (cases y) auto
qed

lemma reply_id_inj: "reply_id S t i = reply_id S t' j \<Longrightarrow> t = t' \<and> i = j"
proof -
  assume "reply_id S t i = reply_id S t' j"
  then have "dec_int t @ 95 # dec_nat i = dec_int t' @ 95 # dec_nat j"
    by (simp add: reply_id_def js_underscore)
  from split_at_sep [OF dec_int_no_sep dec_int_no_sep this]
  show ?thesis by (auto dest: dec_int_inj dec_nat_inj)
qed

lemma ann_id_inj: "ann_id S t i = ann_id S t' j \<Longrightarrow> t = t' \<and> i = j"
proof -
  assume "ann_id S t i = ann_id S t' j"
  then have "dec_int t @ 95 # dec_nat i = dec_int t' @ 95 # dec_nat j"
    by (simp add: ann_id_def js_underscore)
  from split_at_sep [OF dec_int_no_sep dec_int_no_sep this]
  show ?thesis by (auto dest: dec_int_inj dec_nat_inj)
qed

lemma msg_id_inj: "msg_id S t r = msg_id S t' r' \<Longrightarrow> t = t' \<and> r = r'"
proof -
  assume "msg_id S t r = msg_id S t' r'"
  then have "dec_int t @ 95 # r = dec_int t' @ 95 # r'"
    by (simp add: msg_id_def js_underscore)
  from split_at_sep [OF dec_int_no_sep dec_int_no_sep this]
  show ?thesis by (auto dest: dec_int_inj)
qed

lemma insert_replies_Inl: "insert_replies S now idx replies (Inl e) = Inl e"
  by (induction replies arbitrary: idx) (simp_all add: tx_add_def Let_def)

lemma insert_anniversaries_Inl: "insert_anniversaries S now idx anns (Inl e) = Inl e"
  by (induction anns arbitrary: idx) (simp_all add: tx_add_def Let_def)

lemma tx_add_Inr:
  "tx_add k v (Inr st) = (if get k st = None then Inr (put k v st) else Inl ConstraintError)"
  by (simp add: tx_add_def add_def)

lemma put_fresh_keys:
  "get k st = None \<Longrightarrow> mset (map fst (put k v st)) = add_mset k (mset (map fst st))"
  by (simp add: put_fresh_mset)

lemma insert_replies_keys:
  "insert_replies S now idx replies (Inr st) = Inr st' \<Longrightarrow>
   mset (map fst st')
     = mset (map fst st) +
       mset (map (\<lambda>i. KStr (reply_id S (now (2 * i)) i)) [idx..<idx + length replies])"
proof (induction replies arbitrary: idx st)
  case Nil
  then show ?case by simp
next
  case (Cons reply rest)
  let ?k = "KStr (reply_id S (now (2 * idx)) idx)"
  let ?item = "\<lparr>id_rep = reply_id S (now (2 * idx)) idx, sessionId_rep = S,
                 text_rep = read_prop reply ''text'',
                 enabled_rep = (reply ''enabled'' \<noteq> Some (JBool False)),
                 timestamp_rep = now (2 * idx + 1)\<rparr>"
  from Cons.prems have run: "insert_replies S now (Suc idx) rest (tx_add ?k ?item (Inr st)) = Inr st'"
    by (simp add: Let_def)
  have fresh: "get ?k st = None"
  proof (rule ccontr)
    assume "get ?k st \<noteq> None"
    with run show False by (simp add: tx_add_Inr insert_replies_Inl)
  qed
  with run have "insert_replies S now (Suc idx) rest (Inr (put ?k ?item st)) = Inr st'"
    by (simp add: tx_add_Inr)
  from Cons.IH [OF this] fresh show ?case
    by (simp add: put_fresh_keys upt_conv_Cons del: mset_map upt_Suc)
qed

lemma insert_anniversaries_keys:
  "insert_anniversaries S now idx anns (Inr st) = Inr st' \<Longrightarrow>
   mset (map fst st')
     = mset (map fst st) +
       mset (map (\<lambda>i. KStr (ann_id S (now (2 * i)) i)) [idx..<idx + length anns])"
proof (induction anns arbitrary: idx st)
  case Nil
  then show ?case by simp
next
  case (Cons ann rest)
  let ?k = "KStr (ann_id S (now (2 * idx)) idx)"
  let ?item = "\<lparr>id_ann = ann_id S (now (2 * idx)) idx, sessionId_ann = S,
                 name_ann = read_prop ann ''name'', date_ann = read_prop ann ''date'',
                 type_ann = (if truthy (ann ''type'') then read_prop ann ''type''
                             else JStr (js ''anniversary'')),
                 createdAt_ann = now (2 * idx + 1)\<rparr>"
  from Cons.prems
  have run: "insert_anniversaries S now (Suc idx) rest (tx_add ?k ?item (Inr st)) = Inr st'"
    by (simp add: Let_def)
  have fresh: "get ?k st = None"
  proof (rule ccontr)
    assume "get ?k st \<noteq> None"
    with run show False by (simp add: tx_add_Inr insert_anniversaries_Inl)
  qed
  with run have "insert_anniversaries S now (Suc idx) rest (Inr (put ?k ?item st)) = Inr st'"
    by (simp add: tx_add_Inr)
  from Cons.IH [OF this] fresh show ?case
    by (simp add: put_fresh_keys upt_conv_Cons del: mset_map upt_Suc)
qed

lemma insert_messages_generated:
  "insert_messages S now rnd msgs h w n = (x, h', w', n') \<Longrightarrow>
   n \<le> n' \<and>
   (\<exists>f. (\<forall>r. got_id h h' r \<longrightarrow>
             n \<le> f r \<and> f r < n' \<and>
             (\<exists>m'. h' r = Some m' \<and> m' ''id'' = Some (JStr (msg_id S (now (f r)) (rnd (f r)))))) \<and>
        inj_on f {r. got_id h h' r})"
proof (induction msgs arbitrary: h w n)
  case Nil
  then show ?case by (simp add: got_id_def)
next
  case (Cons r0 rs)
  show ?case
  proof (cases "h r0")
    case None
    with Cons.prems show ?thesis
      by (simp add: insert_messages_Cons got_id_def del: insert_messages.simps)
  next
    case (Some msg)
    let ?m2 = "with_defaults S (msg_id S (now n) (rnd n)) msg"
    let ?n1 = "if truthy (msg ''id'') then n else Suc n"
    show ?thesis
    proof (cases "to_key (?m2 ''id'')")
      case None
      then have t: "truthy (msg ''id'')" by (auto simp: with_defaults_id split: if_splits)
      from Cons.prems Some None have "h' = h(r0 \<mapsto> ?m2)" "n' = ?n1"
        by (simp_all add: insert_messages_Cons del: insert_messages.simps)
      with t Some show ?thesis by (auto simp: got_id_def)
    next
      case (Some k)
      with Cons.prems \<open>h r0 = Some msg\<close>
      have run: "insert_messages S now rnd rs (h(r0 \<mapsto> ?m2)) (tx_add k ?m2 w) ?n1
                   = (x, h', w', n')"
        by (simp add: insert_messages_Cons del: insert_messages.simps)
      from Cons.IH [OF run] obtain f where
        le: "?n1 \<le> n'"
        and f: "\<forall>r. got_id (h(r0 \<mapsto> ?m2)) h' r \<longrightarrow>
                 ?n1 \<le> f r \<and> f r < n' \<and>
                 (\<exists>m'. h' r = Some m' \<and> m' ''id'' = Some (JStr (msg_id S (now (f r)) (rnd (f r)))))"
        and inj: "inj_on f {r. got_id (h(r0 \<mapsto> ?m2)) h' r}"
        by blast
      have r0': "h' r0 = Some ?m2"
        by (rule insert_messages_settled [OF run]) (simp_all add: settled_with_defaults msg_id_nonempty)
      have other: "got_id (h(r0 \<mapsto> ?m2)) h' r" if "got_id h h' r" "r \<noteq> r0" for r
        using that by (simp add: got_id_def)
      show ?thesis
      proof (cases "truthy (msg ''id'')")
        case True
        then have not0: "\<not> got_id h h' r0"
          using \<open>h r0 = Some msg\<close> by (simp add: got_id_def)
        have "\<forall>r. got_id h h' r \<longrightarrow>
                 n \<le> f r \<and> f r < n' \<and>
                 (\<exists>m'. h' r = Some m' \<and> m' ''id'' = Some (JStr (msg_id S (now (f r)) (rnd (f r)))))"
        proof (intro allI impI)
          fix r assume g: "got_id h h' r"
          with not0 have "r \<noteq> r0" by auto
          from f other [OF g this] True
          show "n \<le> f r \<and> f r < n' \<and>
                 (\<exists>m'. h' r = Some m' \<and> m' ''id'' = Some (JStr (msg_id S (now (f r)) (rnd (f r)))))"
            by simp
        qed
        moreover have "inj_on f {r. got_id h h' r}"
          by (rule inj_on_subset [OF inj]) (use other not0 in blast)
        moreover from le True have "n \<le> n'" by simp
        ultimately show ?thesis by blast
      next
        case False
        let ?f = "f(r0 := n)"
        from le False have lt: "n < n'" by simp
        have id0: "?m2 ''id'' = Some (JStr (msg_id S (now n) (rnd n)))"
          using False by (simp add: with_defaults_id)
        have A: "\<forall>r. got_id h h' r \<longrightarrow>
                 n \<le> ?f r \<and> ?f r < n' \<and>
                 (\<exists>m'. h' r = Some m' \<and> m' ''id'' = Some (JStr (msg_id S (now (?f r)) (rnd (?f r)))))"
        proof (intro allI impI)
          fix r assume g: "got_id h h' r"
          show "n \<le> ?f r \<and> ?f r < n' \<and>
                 (\<exists>m'. h' r = Some m' \<and> m' ''id'' = Some (JStr (msg_id S (now (?f r)) (rnd (?f r)))))"
          proof (cases "r = r0")
            case True
            with lt r0' id0 show ?thesis by simp
          next
            case neq: False
            from f other [OF g neq] False have "Suc n \<le> f r \<and> f r < n' \<and>
                 (\<exists>m'. h' r = Some m' \<and> m' ''id'' = Some (JStr (msg_id S (now (f r)) (rnd (f r)))))"
              by simp
            with neq show ?thesis by simp
          qed
        qed
        have B: "inj_on ?f {r. got_id h h' r}"
        proof (rule inj_onI)
          fix a b assume a: "a \<in> {r. got_id h h' r}" and b: "b \<in> {r. got_id h h' r}"
            and eq: "?f a = ?f b"
          have big: "Suc n \<le> f r" if "got_id h h' r" "r \<noteq> r0" for r
            using f other [OF that] False by simp
          show "a = b"
          proof (cases "a = r0"; cases "b = r0")
            assume "a \<noteq> r0" "b \<noteq> r0"
            with a b eq other have "f a = f b" "a \<in> {r. got_id (h(r0 \<mapsto> ?m2)) h' r}"
              "b \<in> {r. got_id (h(r0 \<mapsto> ?m2)) h' r}" by auto
            with inj show ?thesis by (auto dest: inj_onD)
          next
            assume "a = r0" "b \<noteq> r0"
            with eq big [of b] b show ?thesis by auto
          next
            assume "a \<noteq> r0" "b = r0"
            with eq big [of a] a show ?thesis by auto
          qed simp
        qed
        from lt have "n \<le> n'" by simp
        then show ?thesis by (intro conjI exI [of _ ?f] A B)
      qed
    qed
  qed
qed

lemma insert_messages_distinct_ids:
  assumes run: "insert_messages S now rnd msgs h w 0 = (x, h', w', n)"
    and draws: "inj_on (\<lambda>k. (now k, rnd k)) {..<n}"
    and r: "got_id h h' r1" "got_id h h' r2" "r1 \<noteq> r2"
  shows "\<exists>m1 m2. h' r1 = Some m1 \<and> h' r2 = Some m2 \<and> m1 ''id'' \<noteq> m2 ''id''"
proof -
  from insert_messages_generated [OF run] obtain f where
    f: "\<forall>r. got_id h h' r \<longrightarrow> 0 \<le> f r \<and> f r < n \<and>
          (\<exists>m'. h' r = Some m' \<and> m' ''id'' = Some (JStr (msg_id S (now (f r)) (rnd (f r)))))"
    and inj: "inj_on f {r. got_id h h' r}"
    by blast
  from f r(1) obtain m1 where m1: "f r1 < n" "h' r1 = Some m1"
    "m1 ''id'' = Some (JStr (msg_id S (now (f r1)) (rnd (f r1))))" by blast
  from f r(2) obtain m2 where m2: "f r2 < n" "h' r2 = Some m2"
    "m2 ''id'' = Some (JStr (msg_id S (now (f r2)) (rnd (f r2))))" by blast
  from inj r have ne: "f r1 \<noteq> f r2" by (auto dest: inj_onD)
  have "m1 ''id'' \<noteq> m2 ''id''"
  proof
    assume "m1 ''id'' = m2 ''id''"
    with m1(3) m2(3) have "(now (f r1), rnd (f r1)) = (now (f r2), rnd (f r2))"
      by (auto dest: msg_id_inj)
    with draws m1(1) m2(1) have "f r1 = f r2" by (auto dest: inj_onD)
    with ne show False ..
  qed
  with m1(2) m2(2) show ?thesis by blast
qed

subsection \<open>Sorting with a comparison function\<close>

lemma mset_insort_cmp: "mset (insort_cmp cmp x xs) = add_mset x (mset xs)"
  by (induction xs) simp_all

lemma mset_js_sort: "mset (js_sort cmp xs) = mset xs"
  unfolding js_sort_def by (induction xs) (simp_all add: mset_insort_cmp)

lemma set_js_sort: "set (js_sort cmp xs) = set xs"
  by (metis mset_js_sort set_mset_mset)

lemma sorted_insort_desc:
  "sorted_wrt (\<lambda>a b. key b \<le> (key a :: int)) xs \<Longrightarrow>
   sorted_wrt (\<lambda>a b. key b \<le> key a) (insort_cmp (\<lambda>a b. key b - key a) x xs)"
proof (induction xs)
  case Nil
  then show ?case by simp
next
  case (Cons y ys)
  have "set (insort_cmp (\<lambda>a b. key b - key a) x ys) = insert x (set ys)"
    by (metis mset_insort_cmp set_mset_add_mset_insert set_mset_mset)
  with Cons show ?case by auto
qed

lemma sorted_js_sort_desc:
  "sorted_wrt (\<lambda>a b. key b \<le> (key a :: int)) (js_sort (\<lambda>a b. key b - key a) xs)"
  unfolding js_sort_def by (induction xs) (simp_all add: sorted_insort_desc)

subsection \<open>Batches whose generated ids cannot collide\<close>

lemma insert_replies_fresh:
  "\<forall>k \<in> fst ` set st. \<exists>i < idx. k = KStr (reply_id S (now (2 * i)) i) \<Longrightarrow>
   \<exists>st'. insert_replies S now idx replies (Inr st) = Inr st'"
proof (induction replies arbitrary: idx st)
  case Nil
  then show ?case by simp
next
  case (Cons reply rest)
  let ?k = "KStr (reply_id S (now (2 * idx)) idx)"
  let ?item = "\<lparr>id_rep = reply_id S (now (2 * idx)) idx, sessionId_rep = S,
                 text_rep = read_prop reply ''text'',
                 enabled_rep = (reply ''enabled'' \<noteq> Some (JBool False)),
                 timestamp_rep = now (2 * idx + 1)\<rparr>"
  have fresh: "get ?k st = None"
  proof (rule ccontr)
    assume "get ?k st \<noteq> None"
    then have "?k \<in> fst ` set st" by (simp add: get_None_iff)
    with Cons.prems obtain i where "i < idx" "?k = KStr (reply_id S (now (2 * i)) i)" by blast
    then show False by (auto dest: reply_id_inj)
  qed
  have "\<forall>k \<in> fst ` set (put ?k ?item st). \<exists>i < Suc idx. k = KStr (reply_id S (now (2 * i)) i)"
    using Cons.prems by (auto simp: fst_set_put less_Suc_eq)
  from Cons.IH [OF this] fresh show ?case by (simp add: Let_def tx_add_Inr)
qed

lemma saveCustomReplies_resolves:
  "\<forall>(k, r) \<in> set (customReplies d). sessionId_rep r = S \<Longrightarrow>
   fst (saveCustomReplies S replies now d) = Resolved"
proof -
  assume "\<forall>(k, r) \<in> set (customReplies d). sessionId_rep r = S"
  then have "cursor_delete (\<lambda>r. sessionId_rep r = S) (customReplies d) = []"
    by (auto simp: cursor_delete_filter filter_empty_conv)
  moreover from insert_replies_fresh [of "[]" 0 S now replies]
  obtain st' where "insert_replies S now 0 replies (Inr []) = Inr st'" by auto
  ultimately show ?thesis by (simp add: saveCustomReplies_def)
qed

lemma insert_anniversaries_fresh:
  "\<forall>k \<in> fst ` set st. \<exists>i < idx. k = KStr (ann_id S (now (2 * i)) i) \<Longrightarrow>
   \<exists>st'. insert_anniversaries S now idx anns (Inr st) = Inr st'"
proof (induction anns arbitrary: idx st)
  case Nil
  then show ?case by simp
next
  case (Cons ann rest)
  let ?k = "KStr (ann_id S (now (2 * idx)) idx)"
  let ?item = "\<lparr>id_ann = ann_id S (now (2 * idx)) idx, sessionId_ann = S,
                 name_ann = read_prop ann ''name'', date_ann = read_prop ann ''date'',
                 type_ann = (if truthy (ann ''type'') then read_prop ann ''type''
                             else JStr (js ''anniversary'')),
                 createdAt_ann = now (2 * idx + 1)\<rparr>"
  have fresh: "get ?k st = None"
  proof (rule ccontr)
    assume "get ?k st \<noteq> None"
    then have "?k \<in> fst ` set st" by (simp add: get_None_iff)
    with Cons.prems obtain i where "i < idx" "?k = KStr (ann_id S (now (2 * i)) i)" by blast
    then show False by (auto dest: ann_id_inj)
  qed
  have "\<forall>k \<in> fst ` set (put ?k ?item st). \<exists>i < Suc idx. k = KStr (ann_id S (now (2 * i)) i)"
    using Cons.prems by (auto simp: fst_set_put less_Suc_eq)
  from Cons.IH [OF this] fresh show ?case by (simp add: Let_def tx_add_Inr)
qed

lemma saveAnniversaries_resolves:
  "\<forall>(k, a) \<in> set (anniversaries d). sessionId_ann a = S \<Longrightarrow>
   fst (saveAnniversaries S anns now d) = Resolved"
proof -
  assume "\<forall>(k, a) \<in> set (anniversaries d). sessionId_ann a = S"
  then have "cursor_delete (\<lambda>a. sessionId_ann a = S) (anniversaries d) = []"
    by (auto simp: cursor_delete_filter filter_empty_conv)
  moreover from insert_anniversaries_fresh [of "[]" 0 S now anns]
  obtain st' where "insert_anniversaries S now 0 anns (Inr []) = Inr st'" by auto
  ultimately show ?thesis by (simp add: saveAnniversaries_def)
qed

subsection \<open>The ids of the rows that a bulk save inserts\<close>

lemma split_at_last_sep:
  assumes "sep \<notin> set s" "sep \<notin> set s'" "x @ sep # s = y @ sep # s'"
  shows "x = y \<and> s = s'"
proof -
  from assms(3) have "rev (x @ sep # s) = rev (y @ sep # s')" by simp
  then have "rev s @ sep # rev x = rev s' @ sep # rev y" by simp
  moreover from assms(1,2) have "sep \<notin> set (rev s)" "sep \<notin> set (rev s')" by simp_all
  ultimately have "rev s = rev s' \<and> rev x = rev y" by (rule split_at_sep [rotated 2])
  then show ?thesis by simp
qed

lemma reply_id_inj_session:
  assumes "reply_id S t i = reply_id S' t' j"
  shows "S = S' \<and> t = t' \<and> i = j"
proof -
  have lit: "js ''_reply_'' = [95, 114, 101, 112, 108, 121] @ [95]" by (simp add: js_def)
  from assms have
    "(S @ [95, 114, 101, 112, 108, 121] @ 95 # dec_int t) @ 95 # dec_nat i
       = (S' @ [95, 114, 101, 112, 108, 121] @ 95 # dec_int t') @ 95 # dec_nat j"
    by (simp add: reply_id_def lit js_underscore)
  from split_at_last_sep [OF dec_nat_no_sep dec_nat_no_sep this]
  have a: "(S @ [95, 114, 101, 112, 108, 121]) @ 95 # dec_int t
             = (S' @ [95, 114, 101, 112, 108, 121]) @ 95 # dec_int t'"
    and b: "dec_nat i = dec_nat j" by simp_all
  from split_at_last_sep [OF dec_int_no_sep dec_int_no_sep a]
  have "S = S'" "dec_int t = dec_int t'" by simp_all
  with b show ?thesis by (auto dest: dec_int_inj dec_nat_inj)
qed

lemma ann_id_inj_session:
  assumes "ann_id S t i = ann_id S' t' j"
  shows "S = S' \<and> t = t' \<and> i = j"
proof -
  have lit: "js ''_ann_'' = [95, 97, 110, 110] @ [95]" by (simp add: js_def)
  from assms have
    "(S @ [95, 97, 110, 110] @ 95 # dec_int t) @ 95 # dec_nat i
       = (S' @ [95, 97, 110, 110] @ 95 # dec_int t') @ 95 # dec_nat j"
    by (simp add: ann_id_def lit js_underscore)
  from split_at_last_sep [OF dec_nat_no_sep dec_nat_no_sep this]
  have a: "(S @ [95, 97, 110, 110]) @ 95 # dec_int t = (S' @ [95, 97, 110, 110]) @ 95 # dec_int t'"
    and b: "dec_nat i = dec_nat j" by simp_all
  from split_at_last_sep [OF dec_int_no_sep dec_int_no_sep a]
  have "S = S'" "dec_int t = dec_int t'" by simp_all
  with b show ?thesis by (auto dest: dec_int_inj dec_nat_inj)
qed

lemma insert_replies_rows:
  assumes "\<forall>k \<in> fst ` set st. \<forall>i \<ge> idx. k \<noteq> KStr (reply_id S (now (2 * i)) i)"
  shows "\<exists>st' rows. insert_replies S now idx replies (Inr st) = Inr st' \<and>
           mset st' = mset st + mset (map (\<lambda>r. (KStr (id_rep r), r)) rows) \<and>
           map id_rep rows = map (\<lambda>i. reply_id S (now (2 * i)) i) [idx..<idx + length replies] \<and>
           (\<forall>r \<in> set rows. sessionId_rep r = S)"
  using assms
proof (induction replies arbitrary: idx st)
  case Nil
  show ?case by (rule exI [of _ st], rule exI [of _ "[]"]) simp
next
  case (Cons reply rest)
  let ?k = "KStr (reply_id S (now (2 * idx)) idx)"
  let ?item = "\<lparr>id_rep = reply_id S (now (2 * idx)) idx, sessionId_rep = S,
                 text_rep = read_prop reply ''text'',
                 enabled_rep = (reply ''enabled'' \<noteq> Some (JBool False)),
                 timestamp_rep = now (2 * idx + 1)\<rparr>"
  have fresh: "get ?k st = None"
  proof (rule ccontr)
    assume "get ?k st \<noteq> None"
    then have "?k \<in> fst ` set st" by (simp add: get_None_iff)
    with Cons.prems show False by blast
  qed
  have "\<forall>k \<in> fst ` set (put ?k ?item st). \<forall>i \<ge> Suc idx. k \<noteq> KStr (reply_id S (now (2 * i)) i)"
    using Cons.prems by (auto simp: fst_set_put dest: reply_id_inj)
  from Cons.IH [OF this] obtain st' rows where
    run: "insert_replies S now (Suc idx) rest (Inr (put ?k ?item st)) = Inr st'"
    and ms: "mset st' = mset (put ?k ?item st) + mset (map (\<lambda>r. (KStr (id_rep r), r)) rows)"
    and ids: "map id_rep rows = map (\<lambda>i. reply_id S (now (2 * i)) i) [Suc idx..<Suc idx + length rest]"
    and sid: "\<forall>r \<in> set rows. sessionId_rep r = S"
    by blast
  have 1: "insert_replies S now idx (reply # rest) (Inr st) = Inr st'"
    using run fresh by (simp add: Let_def tx_add_Inr)
  have 2: "mset st' = mset st + mset (map (\<lambda>r. (KStr (id_rep r), r)) (?item # rows))"
    using ms fresh by (simp add: put_fresh_mset)
  have 3: "map id_rep (?item # rows)
             = map (\<lambda>i. reply_id S (now (2 * i)) i) [idx..<idx + length (reply # rest)]"
    using ids by (simp add: upt_conv_Cons del: upt_Suc)
  have 4: "\<forall>r \<in> set (?item # rows). sessionId_rep r = S" using sid by simp
  from 1 2 3 4 show ?case by blast
qed

lemma saveCustomReplies_rows:
  assumes inv: "replies_inv (customReplies d)"
  shows "\<exists>st' rows.
           saveCustomReplies S replies now d = (Resolved, d\<lparr>customReplies := st'\<rparr>) \<and>
           mset st' = mset (cursor_delete (\<lambda>r. sessionId_rep r = S) (customReplies d))
                      + mset (map (\<lambda>r. (KStr (id_rep r), r)) rows) \<and>
           map id_rep rows = map (\<lambda>i. reply_id S (now (2 * i)) i) [0..<length replies] \<and>
           (\<forall>r \<in> set rows. sessionId_rep r = S)"
proof -
  let ?st0 = "cursor_delete (\<lambda>r. sessionId_rep r = S) (customReplies d)"
  have "\<forall>k \<in> fst ` set ?st0. \<forall>i \<ge> 0. k \<noteq> KStr (reply_id S (now (2 * i)) i)"
  proof (intro ballI allI impI notI)
    fix k i assume k: "k \<in> fst ` set ?st0" and eq: "k = KStr (reply_id S (now (2 * i)) i)"
    from k obtain r where r: "(k, r) \<in> set (customReplies d)" "sessionId_rep r \<noteq> S"
      by (auto simp: cursor_delete_filter)
    with inv obtain t j where "k = KStr (reply_id (sessionId_rep r) t j)"
      by (auto simp: replies_inv_def)
    with eq r(2) show False by (auto dest: reply_id_inj_session)
  qed
  from insert_replies_rows [OF this, of replies] obtain st' rows where
    run: "insert_replies S now 0 replies (Inr ?st0) = Inr st'"
    and rest: "mset st' = mset ?st0 + mset (map (\<lambda>r. (KStr (id_rep r), r)) rows)"
      "map id_rep rows = map (\<lambda>i. reply_id S (now (2 * i)) i) [0..<0 + length replies]"
      "\<forall>r \<in> set rows. sessionId_rep r = S"
    by blast
  from run have "saveCustomReplies S replies now d = (Resolved, d\<lparr>customReplies := st'\<rparr>)"
    by (simp add: saveCustomReplies_def)
  with rest show ?thesis by auto
qed

lemma snd_pairs: "map snd (map (\<lambda>r. (key r, r)) rows) = rows"
  by (induction rows) simp_all

lemma mset_rows_of_session:
  assumes "mset st' = mset (cursor_delete (\<lambda>r. sid r = S) st) + mset (map (\<lambda>r. (key r, r)) rows)"
    and "\<forall>r \<in> set rows. sid r = S"
  shows "mset (getAll (\<lambda>r. sid r = S) st') = mset rows"
proof -
  let ?st0 = "cursor_delete (\<lambda>r. sid r = S) st"
  from assms(1) have "mset st' = mset (?st0 @ map (\<lambda>r. (key r, r)) rows)"
    by (simp only: mset_append)
  then have "mset (map snd st') = mset (map snd (?st0 @ map (\<lambda>r. (key r, r)) rows))"
    by (rule mset_map [THEN trans, OF arg_cong [where f = "image_mset snd"], THEN trans, OF _ mset_map [symmetric]])
  then have "mset (filter (\<lambda>r. sid r = S) (map snd st'))
      = mset (filter (\<lambda>r. sid r = S) (map snd (?st0 @ map (\<lambda>r. (key r, r)) rows)))"
    by (simp only: mset_filter)
  also have "filter (\<lambda>r. sid r = S) (map snd (?st0 @ map (\<lambda>r. (key r, r)) rows)) = rows"
    using assms(2) by (simp only: map_append filter_append cursor_delete_none snd_pairs append_Nil)
      (simp add: filter_id_conv)
  finally show ?thesis by (simp only: getAll_filter)
qed

lemma distinct_reply_ids: "distinct (map (\<lambda>i. reply_id S (now (2 * i)) i) [0..<n])"
  by (auto simp: distinct_map inj_on_def dest: reply_id_inj)

lemma saveCustomReplies_distinct:
  assumes inv: "replies_inv (customReplies d)"
  shows "fst (saveCustomReplies S replies now d) = Resolved \<and>
         length (getAll (\<lambda>r. sessionId_rep r = S)
                   (customReplies (snd (saveCustomReplies S replies now d)))) = length replies \<and>
         distinct (map id_rep (getAll (\<lambda>r. sessionId_rep r = S)
                   (customReplies (snd (saveCustomReplies S replies now d))))) \<and>
         mset (map id_rep (getAll (\<lambda>r. sessionId_rep r = S)
                   (customReplies (snd (saveCustomReplies S replies now d)))))
           = mset (map (\<lambda>idx. reply_id S (now (2 * idx)) idx) [0..<length replies])"
proof -
  from saveCustomReplies_rows [OF inv, of S replies now] obtain st' rows where
    sv: "saveCustomReplies S replies now d = (Resolved, d\<lparr>customReplies := st'\<rparr>)"
    and ms: "mset st' = mset (cursor_delete (\<lambda>r. sessionId_rep r = S) (customReplies d))
                      + mset (map (\<lambda>r. (KStr (id_rep r), r)) rows)"
    and ids: "map id_rep rows = map (\<lambda>i. reply_id S (now (2 * i)) i) [0..<length replies]"
    and sid: "\<forall>r \<in> set rows. sessionId_rep r = S"
    by blast
  let ?got = "getAll (\<lambda>r. sessionId_rep r = S) st'"
  have m: "mset ?got = mset rows" by (rule mset_rows_of_session [OF ms sid])
  then have "length ?got = length rows" by (rule mset_eq_length)
  also have "length rows = length replies"
  proof -
    from ids have "length (map id_rep rows)
        = length (map (\<lambda>i. reply_id S (now (2 * i)) i) [0..<length replies])"
      by (rule arg_cong)
    then show ?thesis by simp
  qed
  finally have len: "length ?got = length replies" .
  have "mset (map id_rep ?got) = mset (map id_rep rows)"
    by (simp only: mset_map m)
  then have gen: "mset (map id_rep ?got)
      = mset (map (\<lambda>idx. reply_id S (now (2 * idx)) idx) [0..<length replies])"
    by (simp only: ids)
  then have "distinct (map id_rep ?got)
      = distinct (map (\<lambda>idx. reply_id S (now (2 * idx)) idx) [0..<length replies])"
    by (rule mset_eq_imp_distinct_iff)
  then have dis: "distinct (map id_rep ?got)" by (simp only: distinct_reply_ids)
  have fs: "fst (saveCustomReplies S replies now d) = Resolved"
    and sn: "customReplies (snd (saveCustomReplies S replies now d)) = st'"
    by (simp_all add: sv)
  show ?thesis unfolding sn using fs len dis gen by blast
qed

lemma replies_inv_saveCustomReplies:
  assumes inv: "replies_inv (customReplies d)"
  shows "replies_inv (customReplies (snd (saveCustomReplies S replies now d)))"
proof -
  from saveCustomReplies_rows [OF inv, of S replies now] obtain st' rows where
    sv: "saveCustomReplies S replies now d = (Resolved, d\<lparr>customReplies := st'\<rparr>)"
    and ms: "mset st' = mset (cursor_delete (\<lambda>r. sessionId_rep r = S) (customReplies d))
                      + mset (map (\<lambda>r. (KStr (id_rep r), r)) rows)"
    and ids: "map id_rep rows = map (\<lambda>i. reply_id S (now (2 * i)) i) [0..<length replies]"
    and sid: "\<forall>r \<in> set rows. sessionId_rep r = S"
    by blast
  from ms have "mset st' = mset (cursor_delete (\<lambda>r. sessionId_rep r = S) (customReplies d)
                  @ map (\<lambda>r. (KStr (id_rep r), r)) rows)"
    by (simp only: mset_append)
  then have st: "set st' = set (cursor_delete (\<lambda>r. sessionId_rep r = S) (customReplies d)
                  @ map (\<lambda>r. (KStr (id_rep r), r)) rows)"
    by (rule mset_eq_setD)
  have form: "\<exists>t i. id_rep r = reply_id (sessionId_rep r) t i" if "r \<in> set rows" for r
  proof -
    from that have "id_rep r \<in> set (map id_rep rows)" by simp
    then obtain i where "id_rep r = reply_id S (now (2 * i)) i" unfolding ids by auto
    with sid that show ?thesis by auto
  qed
  have "replies_inv st'"
    unfolding replies_inv_def st
  proof (intro ballI)
    fix e assume e: "e \<in> set (cursor_delete (\<lambda>r. sessionId_rep r = S) (customReplies d)
                  @ map (\<lambda>r. (KStr (id_rep r), r)) rows)"
    obtain k r where kr: "e = (k, r)" by (cases e)
    from e kr consider "(k, r) \<in> set (customReplies d)" | "k = KStr (id_rep r)" "r \<in> set rows"
      by (auto simp: cursor_delete_filter)
    then have "k = KStr (id_rep r) \<and> (\<exists>t i. id_rep r = reply_id (sessionId_rep r) t i)"
    proof cases
      case 1
      with inv show ?thesis unfolding replies_inv_def by blast
    next
      case 2
      with form show ?thesis by blast
    qed
    with kr show "case e of (k, r) \<Rightarrow>
        k = KStr (id_rep r) \<and> (\<exists>t i. id_rep r = reply_id (sessionId_rep r) t i)"
      by simp
  qed
  with sv show ?thesis by simp
qed

lemma replies_inv_empty: "replies_inv (customReplies empty_db)"
  by (simp add: replies_inv_def empty_db_def)

lemma insert_anniversaries_rows:
  assumes "\<forall>k \<in> fst ` set st. \<forall>i \<ge> idx. k \<noteq> KStr (ann_id S (now (2 * i)) i)"
  shows "\<exists>st' rows. insert_anniversaries S now idx anns (Inr st) = Inr st' \<and>
           mset st' = mset st + mset (map (\<lambda>r. (KStr (id_ann r), r)) rows) \<and>
           map id_ann rows = map (\<lambda>i. ann_id S (now (2 * i)) i) [idx..<idx + length anns] \<and>
           (\<forall>r \<in> set rows. sessionId_ann r = S)"
  using assms
proof (induction anns arbitrary: idx st)
  case Nil
  show ?case by (rule exI [of _ st], rule exI [of _ "[]"]) simp
next
  case (Cons ann rest)
  let ?k = "KStr (ann_id S (now (2 * idx)) idx)"
  let ?item = "\<lparr>id_ann = ann_id S (now (2 * idx)) idx, sessionId_ann = S,
                 name_ann = read_prop ann ''name'', date_ann = read_prop ann ''date'',
                 type_ann = (if truthy (ann ''type'') then read_prop ann ''type''
                             else JStr (js ''anniversary'')),
                 createdAt_ann = now (2 * idx + 1)\<rparr>"
  have fresh: "get ?k st = None"
  proof (rule ccontr)
    assume "get ?k st \<noteq> None"
    then have "?k \<in> fst ` set st" by (simp add: get_None_iff)
    with Cons.prems show False by blast
  qed
  have "\<forall>k \<in> fst ` set (put ?k ?item st). \<forall>i \<ge> Suc idx. k \<noteq> KStr (ann_id S (now (2 * i)) i)"
    using Cons.prems by (auto simp: fst_set_put dest: ann_id_inj)
  from Cons.IH [OF this] obtain st' rows where
    run: "insert_anniversaries S now (Suc idx) rest (Inr (put ?k ?item st)) = Inr st'"
    and ms: "mset st' = mset (put ?k ?item st) + mset (map (\<lambda>r. (KStr (id_ann r), r)) rows)"
    and ids: "map id_ann rows = map (\<lambda>i. ann_id S (now (2 * i)) i) [Suc idx..<Suc idx + length rest]"
    and sid: "\<forall>r \<in> set rows. sessionId_ann r = S"
    by blast
  have 1: "insert_anniversaries S now idx (ann # rest) (Inr st) = Inr st'"
    using run fresh by (simp add: Let_def tx_add_Inr)
  have 2: "mset st' = mset st + mset (map (\<lambda>r. (KStr (id_ann r), r)) (?item # rows))"
    using ms fresh by (simp add: put_fresh_mset)
  have 3: "map id_ann (?item # rows)
             = map (\<lambda>i. ann_id S (now (2 * i)) i) [idx..<idx + length (ann # rest)]"
    using ids by (simp add: upt_conv_Cons del: upt_Suc)
  have 4: "\<forall>r \<in> set (?item # rows). sessionId_ann r = S" using sid by simp
  from 1 2 3 4 show ?case by blast
qed

lemma saveAnniversaries_rows:
  assumes inv: "anniversaries_inv (anniversaries d)"
  shows "\<exists>st' rows.
           saveAnniversaries S anns now d = (Resolved, d\<lparr>anniversaries := st'\<rparr>) \<and>
           mset st' = mset (cursor_delete (\<lambda>r. sessionId_ann r = S) (anniversaries d))
                      + mset (map (\<lambda>r. (KStr (id_ann r), r)) rows) \<and>
           map id_ann rows = map (\<lambda>i. ann_id S (now (2 * i)) i) [0..<length anns] \<and>
           (\<forall>r \<in> set rows. sessionId_ann r = S)"
proof -
  let ?st0 = "cursor_delete (\<lambda>r. sessionId_ann r = S) (anniversaries d)"
  have "\<forall>k \<in> fst ` set ?st0. \<forall>i \<ge> 0. k \<noteq> KStr (ann_id S (now (2 * i)) i)"
  proof (intro ballI allI impI notI)
    fix k i assume k: "k \<in> fst ` set ?st0" and eq: "k = KStr (ann_id S (now (2 * i)) i)"
    from k obtain r where r: "(k, r) \<in> set (anniversaries d)" "sessionId_ann r \<noteq> S"
      by (auto simp: cursor_delete_filter)
    with inv obtain t j where "k = KStr (ann_id (sessionId_ann r) t j)"
      by (auto simp: anniversaries_inv_def)
    with eq r(2) show False by (auto dest: ann_id_inj_session)
  qed
  from insert_anniversaries_rows [OF this, of anns] obtain st' rows where
    run: "insert_anniversaries S now 0 anns (Inr ?st0) = Inr st'"
    and rest: "mset st' = mset ?st0 + mset (map (\<lambda>r. (KStr (id_ann r), r)) rows)"
      "map id_ann rows = map (\<lambda>i. ann_id S (now (2 * i)) i) [0..<0 + length anns]"
      "\<forall>r \<in> set rows. sessionId_ann r = S"
    by blast
  from run have "saveAnniversaries S anns now d = (Resolved, d\<lparr>anniversaries := st'\<rparr>)"
    by (simp add: saveAnniversaries_def)
  with rest show ?thesis by auto
qed

lemma distinct_ann_ids: "distinct (map (\<lambda>i. ann_id S (now (2 * i)) i) [0..<n])"
  by (auto simp: distinct_map inj_on_def dest: ann_id_inj)

lemma saveAnniversaries_distinct:
  assumes inv: "anniversaries_inv (anniversaries d)"
  shows "fst (saveAnniversaries S anns now d) = Resolved \<and>
         length (getAll (\<lambda>r. sessionId_ann r = S)
                   (anniversaries (snd (saveAnniversaries S anns now d)))) = length anns \<and>
         distinct (map id_ann (getAll (\<lambda>r. sessionId_ann r = S)
                   (anniversaries (snd (saveAnniversaries S anns now d))))) \<and>
         mset (map id_ann (getAll (\<lambda>r. sessionId_ann r = S)
                   (anniversaries (snd (saveAnniversaries S anns now d)))))
           = mset (map (\<lambda>idx. ann_id S (now (2 * idx)) idx) [0..<length anns])"
proof -
  from saveAnniversaries_rows [OF inv, of S anns now] obtain st' rows where
    sv: "saveAnniversaries S anns now d = (Resolved, d\<lparr>anniversaries := st'\<rparr>)"
    and ms: "mset st' = mset (cursor_delete (\<lambda>r. sessionId_ann r = S) (anniversaries d))
                      + mset (map (\<lambda>r. (KStr (id_ann r), r)) rows)"
    and ids: "map id_ann rows = map (\<lambda>i. ann_id S (now (2 * i)) i) [0..<length anns]"
    and sid: "\<forall>r \<in> set rows. sessionId_ann r = S"
    by blast
  let ?got = "getAll (\<lambda>r. sessionId_ann r = S) st'"
  have m: "mset ?got = mset rows" by (rule mset_rows_of_session [OF ms sid])
  then have "length ?got = length rows" by (rule mset_eq_length)
  also have "length rows = length anns"
  proof -
    from ids have "length (map id_ann rows)
        = length (map (\<lambda>i. ann_id S (now (2 * i)) i) [0..<length anns])"
      by (rule arg_cong)
    then show ?thesis by simp
  qed
  finally have len: "length ?got = length anns" .
  have "mset (map id_ann ?got) = mset (map id_ann rows)"
    by (simp only: mset_map m)
  then have gen: "mset (map id_ann ?got)
      = mset (map (\<lambda>idx. ann_id S (now (2 * idx)) idx) [0..<length anns])"
    by (simp only: ids)
  then have "distinct (map id_ann ?got)
      = distinct (map (\<lambda>idx. ann_id S (now (2 * idx)) idx) [0..<length anns])"
    by (rule mset_eq_imp_distinct_iff)
  then have dis: "distinct (map id_ann ?got)" by (simp only: distinct_ann_ids)
  have fs: "fst (saveAnniversaries S anns now d) = Resolved"
    and sn: "anniversaries (snd (saveAnniversaries S anns now d)) = st'"
    by (simp_all add: sv)
  show ?thesis unfolding sn using fs len dis gen by blast
qed

lemma anniversaries_inv_saveAnniversaries:
  assumes inv: "anniversaries_inv (anniversaries d)"
  shows "anniversaries_inv (anniversaries (snd (saveAnniversaries S anns now d)))"
proof -
  from saveAnniversaries_rows [OF inv, of S anns now] obtain st' rows where
    sv: "saveAnniversaries S anns now d = (Resolved, d\<lparr>anniversaries := st'\<rparr>)"
    and ms: "mset st' = mset (cursor_delete (\<lambda>r. sessionId_ann r = S) (anniversaries d))
                      + mset (map (\<lambda>r. (KStr (id_ann r), r)) rows)"
    and ids: "map id_ann rows = map (\<lambda>i. ann_id S (now (2 * i)) i) [0..<length anns]"
    and sid: "\<forall>r \<in> set rows. sessionId_ann r = S"
    by blast
  from ms have "mset st' = mset (cursor_delete (\<lambda>r. sessionId_ann r = S) (anniversaries d)
                  @ map (\<lambda>r. (KStr (id_ann r), r)) rows)"
    by (simp only: mset_append)
  then have st: "set st' = set (cursor_delete (\<lambda>r. sessionId_ann r = S) (anniversaries d)
                  @ map (\<lambda>r. (KStr (id_ann r), r)) rows)"
    by (rule mset_eq_setD)
  have form: "\<exists>t i. id_ann r = ann_id (sessionId_ann r) t i" if "r \<in> set rows" for r
  proof -
    from that have "id_ann r \<in> set (map id_ann rows)" by simp
    then obtain i where "id_ann r = ann_id S (now (2 * i)) i" unfolding ids by auto
    with sid that show ?thesis by auto
  qed
  have "anniversaries_inv st'"
    unfolding anniversaries_inv_def st
  proof (intro ballI)
    fix e assume e: "e \<in> set (cursor_delete (\<lambda>r. sessionId_ann r = S) (anniversaries d)
                  @ map (\<lambda>r. (KStr (id_ann r), r)) rows)"
    obtain k r where kr: "e = (k, r)" by (cases e)
    from e kr consider "(k, r) \<in> set (anniversaries d)" | "k = KStr (id_ann r)" "r \<in> set rows"
      by (auto simp: cursor_delete_filter)
    then have "k = KStr (id_ann r) \<and> (\<exists>t i. id_ann r = ann_id (sessionId_ann r) t i)"
    proof cases
      case 1
      with inv show ?thesis unfolding anniversaries_inv_def by blast
    next
      case 2
      with form show ?thesis by blast
    qed
    with kr show "case e of (k, r) \<Rightarrow>
        k = KStr (id_ann r) \<and> (\<exists>t i. id_ann r = ann_id (sessionId_ann r) t i)"
      by simp
  qed
  with sv show ?thesis by simp
qed

lemma anniversaries_inv_empty: "anniversaries_inv (anniversaries empty_db)"
  by (simp add: anniversaries_inv_def empty_db_def)

lemma replies_inv_deleteSession:
  "replies_inv (customReplies d) \<Longrightarrow> replies_inv (customReplies (snd (deleteSession S d)))"
  by (auto simp: deleteSession_def deleteSession_transactions_def deleteSession_tx_others
      replies_inv_def cursor_delete_filter)

lemma anniversaries_inv_deleteSession:
  "anniversaries_inv (anniversaries d) \<Longrightarrow>
   anniversaries_inv (anniversaries (snd (deleteSession S d)))"
  by (auto simp: deleteSession_def deleteSession_transactions_def deleteSession_tx_others
      anniversaries_inv_def cursor_delete_filter)

lemma insert_messages_count:
  "insert_messages S now rnd msgs h w n = (x, h', w', n') \<Longrightarrow> n' \<le> n + length msgs"
proof (induction msgs arbitrary: h w n)
  case Nil
  then show ?case by simp
next
  case (Cons r0 rs)
  show ?case
  proof (cases "h r0")
    case None
    with Cons.prems show ?thesis by (simp add: insert_messages_Cons del: insert_messages.simps)
  next
    case (Some msg)
    let ?m2 = "with_defaults S (msg_id S (now n) (rnd n)) msg"
    show ?thesis
    proof (cases "to_key (?m2 ''id'')")
      case None
      with Cons.prems Some show ?thesis
        by (auto simp: insert_messages_Cons simp del: insert_messages.simps split: if_splits)
    next
      case (Some k)
      with Cons.prems \<open>h r0 = Some msg\<close>
      have "insert_messages S now rnd rs (h(r0 \<mapsto> ?m2)) (tx_add k ?m2 w)
              (if truthy (msg ''id'') then n else Suc n) = (x, h', w', n')"
        by (simp add: insert_messages_Cons del: insert_messages.simps)
      from Cons.IH [OF this] show ?thesis by (simp split: if_splits)
    qed
  qed
qed

lemma saveMessages_distinct_ids:
  assumes sv: "saveMessages S msgs now rnd h d = (out, h', d')"
    and draws: "inj_on (\<lambda>k. (now k, rnd k)) {..<length msgs}"
    and r: "got_id h h' r1" "got_id h h' r2" "r1 \<noteq> r2"
  shows "\<exists>m1 m2. h' r1 = Some m1 \<and> h' r2 = Some m2 \<and> m1 ''id'' \<noteq> m2 ''id''"
proof -
  from sv obtain x w n where
    run: "insert_messages S now rnd msgs h
       (Inr (cursor_delete (\<lambda>m. m ''sessionId'' = Some (JStr S)) (messages d))) 0 = (x, h', w, n)"
    by (rule saveMessages_cases)
  from insert_messages_count [OF run] have "{..<n} \<subseteq> {..<length msgs}" by simp
  with draws have "inj_on (\<lambda>k. (now k, rnd k)) {..<n}" by (rule inj_on_subset)
  from insert_messages_distinct_ids [OF run this r] show ?thesis .
qed

lemma got_id_visited:
  assumes sv: "saveMessages S msgs now rnd h d = (out, h', d')"
    and out: "out = Resolved \<or> out = Rejected ConstraintError"
    and r: "r \<in> set msgs" "h r = Some m" "\<not> truthy (m ''id'')"
  shows "got_id h h' r"
proof -
  from sv obtain x w n where
    run: "insert_messages S now rnd msgs h
       (Inr (cursor_delete (\<lambda>m. m ''sessionId'' = Some (JStr S)) (messages d))) 0 = (x, h', w, n)"
    and res: "out = Resolved \<longleftrightarrow> x = None \<and> (\<exists>st. w = Inr st \<and> d' = d\<lparr>messages := st\<rparr>)"
    and rej: "out = Rejected ConstraintError \<longrightarrow> x = None"
    by (rule saveMessages_cases)
  from out res rej have x: "x = None" by blast
  from insert_messages_visited [OF run [unfolded x] r(1)] r(2) obtain j where
    "h' r = Some (with_defaults S (msg_id S (now j) (rnd j)) m)" by auto
  then have "map_option (\<lambda>m. m ''id'') (h' r) = Some (Some (JStr (msg_id S (now j) (rnd j))))"
    using r(3) by (simp add: with_defaults_id)
  moreover have "map_option (\<lambda>m. m ''id'') (h r) = Some (m ''id'')" using r(2) by simp
  moreover have "m ''id'' \<noteq> Some (JStr (msg_id S (now j) (rnd j)))"
    using r(3) msg_id_nonempty [of S "now j" "rnd j"] by auto
  ultimately have "h' r \<noteq> h r" by auto
  with r(2,3) show ?thesis by (auto simp: got_id_def)
qed

lemma dec_nat_0_1: "dec_nat 0 = js ''0''" "dec_nat 1 = js ''1''" "dec_nat (Suc 0) = js ''1''"
  by code_simp+

lemma example_ids:
  "reply_id (js ''s1'') 1000 0 = js ''s1_reply_1000_0''"
  "reply_id (js ''s1'') 1000 1 = js ''s1_reply_1000_1''"
  "ann_id (js ''s1'') 1000 0 = js ''s1_ann_1000_0''"
  "ann_id (js ''s1'') 1000 1 = js ''s1_ann_1000_1''"
  by (simp_all add: reply_id_def ann_id_def dec_int_1000 dec_nat_0_1 js_def)

lemma replies_inv_db_full: "replies_inv (customReplies db_full)"
proof -
  have "\<exists>t i. js ''s1_reply_1000_0'' = reply_id (js ''s1'') t i"
    using example_ids(1) [symmetric] by blast
  then show ?thesis by (simp add: replies_inv_def db_full_def)
qed

lemma anniversaries_inv_db_full: "anniversaries_inv (anniversaries db_full)"
proof -
  have "\<exists>t i. js ''s1_ann_1000_0'' = ann_id (js ''s1'') t i"
    using example_ids(3) [symmetric] by blast
  then show ?thesis by (simp add: anniversaries_inv_def db_full_def)
qed

section \<open>Claims\<close>

text \<open>
  C1, as the claim states it, fails: a resource of \<open>s1\<close> whose type is above the upper
  bound of the cursor's range (the code units \<open>0xFFFF\<close>, \<open>0x61\<close>) is still in
  \<open>resources\<close> after \<open>deleteSession\<close> has resolved.
\<close>

theorem deleteSession_cascade_counterexample:
  "fst (deleteSession (js ''s1'') db_uffff) = Resolved \<and>
   map (\<lambda>(k, r). (sessionId_res r, type_res r)) (resources (snd (deleteSession (js ''s1'') db_uffff)))
     = [(js ''s1'', [0xFFFF, 0x61])]"
  by (simp add: deleteSession_def deleteSession_transactions_def deleteSession_tx_resources
        db_uffff_def saveResource_def Let_def db_s1_def empty_db_def cursor_delete_filter)

text \<open>
  C1, amended. For every session id and database, \<open>deleteSession\<close> resolves, and in the
  database it leaves: the session row and the settings row are absent; no row of
  \<open>messages\<close>, \<open>customReplies\<close> or \<open>anniversaries\<close> has the session id; no row of
  \<open>resources\<close> has the session id together with a type up to the string of the one code
  unit \<open>0xFFFF\<close> (by \<open>le_uffff_iff\<close>: the empty type, a type whose first code unit is
  below \<open>0xFFFF\<close>, or that string itself). All deletions are requests of the one
  transaction the operation opens, so the committed states that another transaction can
  read are the database before and the database after, nothing in between.
\<close>

theorem deleteSession_cascade:
  "fst (deleteSession S d) = Resolved \<and>
   cascade_gone S (snd (deleteSession S d)) \<and>
   commits (deleteSession_transactions S) d = [d, snd (deleteSession S d)]"
  by (simp add: deleteSession_def deleteSession_transactions_def deleteSession_tx_gone)

theorem deleteSession_cascade_witness:
  "\<not> cascade_gone (js ''s1'') db_full \<and>
   fst (deleteSession (js ''s1'') db_full) = Resolved \<and>
   cascade_gone (js ''s1'') (snd (deleteSession (js ''s1'') db_full)) \<and>
   commits (deleteSession_transactions (js ''s1'')) db_full
     = [db_full, snd (deleteSession (js ''s1'') db_full)] \<and>
   map fst (sessions (snd (deleteSession (js ''s1'') db_full))) = [KStr (js ''s2'')] \<and>
   map fst (messages (snd (deleteSession (js ''s1'') db_full))) = [KStr (js ''m2'')] \<and>
   resources (snd (deleteSession (js ''s1'') db_full)) = [] \<and>
   settings (snd (deleteSession (js ''s1'') db_full)) = [] \<and>
   customReplies (snd (deleteSession (js ''s1'') db_full)) = [] \<and>
   anniversaries (snd (deleteSession (js ''s1'') db_full)) = []"
proof -
  have pre: "\<not> cascade_gone (js ''s1'') db_full"
    by (simp add: cascade_gone_def db_full_def get_def)
  have post: "map fst (sessions (snd (deleteSession (js ''s1'') db_full))) = [KStr (js ''s2'')]"
    "map fst (messages (snd (deleteSession (js ''s1'') db_full))) = [KStr (js ''m2'')]"
    "resources (snd (deleteSession (js ''s1'') db_full)) = []"
    "settings (snd (deleteSession (js ''s1'') db_full)) = []"
    "customReplies (snd (deleteSession (js ''s1'') db_full)) = []"
    "anniversaries (snd (deleteSession (js ''s1'') db_full)) = []"
    by (simp_all add: deleteSession_def deleteSession_transactions_def deleteSession_tx_resources
        deleteSession_tx_others db_full_def delete_def cursor_delete_filter js_def)
  show ?thesis
    using deleteSession_cascade [of "js ''s1''" db_full] pre post by simp
qed

text \<open>
  C2, as the claim states it, fails: a batch of one message that carries the session id
  \<open>s2\<close> is saved for \<open>s1\<close>; the save resolves and \<open>s1\<close> has no message, since the
  loop keeps a truthy \<open>sessionId\<close> and the row is indexed under \<open>s2\<close>.
\<close>

theorem saveMessages_replace_counterexample:
  "fst (saveMessages (js ''s1'') [0] (\<lambda>_. 1000) rnd_ab heap_foreign db_full) = Resolved \<and>
   length [0 :: ref] = 1 \<and>
   length (messages_of (js ''s1'')
     (snd (snd (saveMessages (js ''s1'') [0] (\<lambda>_. 1000) rnd_ab heap_foreign db_full)))) = 0"
  by (simp add: saveMessages_eval heap_foreign_def)

text \<open>
  C2, amended. When \<open>saveMessages\<close> resolves, the messages of the session are exactly
  those objects of the batch, as the loop left them, whose \<open>sessionId\<close> is the session's:
  the rows the session had before are gone and nothing else is there. When every message
  of the batch came with a falsy \<open>sessionId\<close> or with the session's, these are all
  \<open>N'\<close> of them. The deletions and the insertions are requests of the one transaction
  the operation opens, so the committed states that another transaction can read are the
  database before and the database after.
\<close>

theorem saveMessages_replace:
  assumes "saveMessages S msgs now rnd h d = (Resolved, h', d')"
  shows "(\<exists>rows. map h' msgs = map Some rows \<and>
            mset (messages_of S d') = mset (filter (\<lambda>m. m ''sessionId'' = Some (JStr S)) rows)) \<and>
         ((\<forall>r \<in> set msgs. \<forall>m. h r = Some m \<longrightarrow>
              \<not> truthy (m ''sessionId'') \<or> m ''sessionId'' = Some (JStr S)) \<longrightarrow>
            length (messages_of S d') = length msgs) \<and>
         commits (saveMessages_transactions S msgs now rnd h) d = [d, d']"
proof -
  let ?P = "\<lambda>m. m ''sessionId'' = Some (JStr S)"
  from assms obtain x w n where
    run: "insert_messages S now rnd msgs h (Inr (cursor_delete ?P (messages d))) 0 = (x, h', w, n)"
    and res: "Resolved = Resolved \<longleftrightarrow> x = None \<and> (\<exists>st. w = Inr st \<and> d' = d\<lparr>messages := st\<rparr>)"
    by (rule saveMessages_cases)
  from res obtain st where x: "x = None" and w: "w = Inr st" and d': "d' = d\<lparr>messages := st\<rparr>"
    by auto
  from insert_messages_rows [OF run [unfolded x w]] obtain rows where
    rows: "map h' msgs = map Some rows"
    and st: "mset (map snd st) = mset (map snd (cursor_delete ?P (messages d))) + mset rows"
    by blast
  have "mset (messages_of S d') = filter_mset ?P (mset (map snd st))"
    by (simp add: messages_of_def d' getAll_filter del: mset_map)
  also have "\<dots> = filter_mset ?P (mset (map snd (cursor_delete ?P (messages d)))) + filter_mset ?P (mset rows)"
    by (simp only: st filter_union_mset)
  also have "filter_mset ?P (mset (map snd (cursor_delete ?P (messages d)))) = {#}"
    by (simp only: mset_filter [symmetric] cursor_delete_none mset.simps)
  finally have m: "mset (messages_of S d') = mset (filter ?P rows)" by simp
  have len: "length (messages_of S d') = length msgs"
    if all: "\<forall>r \<in> set msgs. \<forall>m. h r = Some m \<longrightarrow>
              \<not> truthy (m ''sessionId'') \<or> m ''sessionId'' = Some (JStr S)"
  proof -
    have "?P row" if "row \<in> set rows" for row
    proof -
      from that rows obtain r where r: "r \<in> set msgs" "h' r = Some row"
        by (metis (no_types, lifting) imageE image_eqI list.set_map)
      from insert_messages_visited [OF run [unfolded x] r(1)] obtain m j where
        mj: "h r = Some m" "h' r = Some (with_defaults S (msg_id S (now j) (rnd j)) m)" by blast
      with all r(1) have "\<not> truthy (m ''sessionId'') \<or> m ''sessionId'' = Some (JStr S)" by blast
      with mj r(2) show ?thesis by (auto simp: with_defaults_sessionId)
    qed
    then have "filter ?P rows = rows" by (simp add: filter_id_conv)
    with m have "size (mset (messages_of S d')) = size (mset rows)" by simp
    moreover from rows have "length rows = length msgs" by (metis length_map)
    ultimately show ?thesis by simp
  qed
  have "commits (saveMessages_transactions S msgs now rnd h) d = [d, d']"
    by (simp add: saveMessages_transactions_def assms)
  with m rows len show ?thesis by blast
qed

theorem saveMessages_replace_witness:
  "fst (saveMessages (js ''s1'') [0, 1] (\<lambda>_. 1000) rnd_ab heap_ab db_full) = Resolved \<and>
   length (messages_of (js ''s1'') db_full) = 1 \<and>
   length (messages_of (js ''s1'')
     (snd (snd (saveMessages (js ''s1'') [0, 1] (\<lambda>_. 1000) rnd_ab heap_ab db_full)))) = 2 \<and>
   commits (saveMessages_transactions (js ''s1'') [0, 1] (\<lambda>_. 1000) rnd_ab heap_ab) db_full
     = [db_full, snd (snd (saveMessages (js ''s1'') [0, 1] (\<lambda>_. 1000) rnd_ab heap_ab db_full))]"
proof -
  let ?X = "saveMessages (js ''s1'') [0, 1] (\<lambda>_. 1000) rnd_ab heap_ab db_full"
  have res: "fst ?X = Resolved"
    by (simp add: saveMessages_eval heap_ab_def)
  then have eq: "?X = (Resolved, fst (snd ?X), snd (snd ?X))"
    by (metis prod.collapse)
  have pre: "length (messages_of (js ''s1'') db_full) = 1"
    by (simp add: messages_of_def getAll_def db_full_def js_def)
  have all: "\<forall>r \<in> set [0, 1]. \<forall>m. heap_ab r = Some m \<longrightarrow>
      \<not> truthy (m ''sessionId'') \<or> m ''sessionId'' = Some (JStr (js ''s1''))"
    by (auto simp: heap_ab_def)
  from saveMessages_replace [OF eq] all
  have "length (messages_of (js ''s1'') (snd (snd ?X))) = length [0 :: ref, 1]"
    and "commits (saveMessages_transactions (js ''s1'') [0, 1] (\<lambda>_. 1000) rnd_ab heap_ab) db_full
      = [db_full, snd (snd ?X)]"
    by blast+
  with res pre show ?thesis by simp
qed

text \<open>
  C3. In a resources store whose rows were written by \<open>saveResource\<close>, saving twice under
  the same session id, type and key, first the data \<open>A\<close> and then the data \<open>B\<close>, resolves
  both times, leaves exactly one row with that session id, type and key, and
  \<open>loadResource\<close> on them returns \<open>B\<close>.
\<close>

theorem saveResource_twice:
  assumes "resources_inv (resources d)"
  shows "fst (saveResource S t k A n1 d) = Resolved \<and>
         fst (saveResource S t k B n2 (snd (saveResource S t k A n1 d))) = Resolved \<and>
         loadResource S t k (snd (saveResource S t k B n2 (snd (saveResource S t k A n1 d)))) = B \<and>
         length (filter (\<lambda>(i, r). sessionId_res r = S \<and> type_res r = t \<and> key_res r = k)
            (resources (snd (saveResource S t k B n2 (snd (saveResource S t k A n1 d)))))) = 1"
proof -
  let ?K = "KStr (resource_id S t k)"
  let ?d1 = "snd (saveResource S t k A n1 d)"
  let ?d2 = "snd (saveResource S t k B n2 ?d1)"
  let ?rowB = "\<lparr>id_res = resource_id S t k, sessionId_res = S, type_res = t, key_res = k,
            data_res = B, timestamp_res = n2\<rparr>"
  have inv2: "resources_inv (resources ?d2)"
    using assms by (intro resources_inv_saveResource)
  then have wf2: "wf_store (resources ?d2)" by (simp add: resources_inv_def)
  have st2: "resources ?d2 = put ?K ?rowB (resources ?d1)"
    by (simp add: saveResource_def Let_def)
  have mem: "(?K, ?rowB) \<in> set (resources ?d2)"
    unfolding st2 by (rule put_mem)
  have "filter (\<lambda>(i, r). sessionId_res r = S \<and> type_res r = t \<and> key_res r = k) (resources ?d2)
        = filter (\<lambda>e. fst e = ?K) (resources ?d2)"
  proof (rule filter_cong [OF refl])
    fix e assume e: "e \<in> set (resources ?d2)"
    obtain i r where ir: "e = (i, r)" by (cases e)
    from inv2 e ir have "i = KStr (resource_id (sessionId_res r) (type_res r) (key_res r))"
      by (auto simp: resources_inv_def)
    moreover have "fst e = ?K \<Longrightarrow> r = ?rowB"
      using wf_store_unique [OF wf2 _ mem] e ir by auto
    ultimately show "(case e of (i, r) \<Rightarrow> sessionId_res r = S \<and> type_res r = t \<and> key_res r = k) = (fst e = ?K)"
      using ir by auto
  qed
  also have "\<dots> = [(?K, ?rowB)]" by (rule filter_key_wf [OF wf2 mem])
  finally have cnt: "length (filter (\<lambda>(i, r). sessionId_res r = S \<and> type_res r = t \<and> key_res r = k)
            (resources ?d2)) = 1" by simp
  have ld: "loadResource S t k ?d2 = B"
    by (simp add: loadResource_def st2 get_put Let_def)
  show ?thesis using cnt ld by (simp add: saveResource_def Let_def)
qed

theorem saveResource_twice_witness:
  "resources_inv (resources empty_db) \<and>
   loadResource (js ''s1'') (js ''avatar'') (js ''main'')
     (snd (saveResource (js ''s1'') (js ''avatar'') (js ''main'') (JStr (js ''blobB'')) 2000
        (snd (saveResource (js ''s1'') (js ''avatar'') (js ''main'') (JStr (js ''blobA'')) 1000
           empty_db)))) = JStr (js ''blobB'') \<and>
   length (filter (\<lambda>(i, r). sessionId_res r = js ''s1'' \<and> type_res r = js ''avatar'' \<and>
                    key_res r = js ''main'')
     (resources (snd (saveResource (js ''s1'') (js ''avatar'') (js ''main'') (JStr (js ''blobB'')) 2000
        (snd (saveResource (js ''s1'') (js ''avatar'') (js ''main'') (JStr (js ''blobA'')) 1000
           empty_db)))))) = 1 \<and>
   length (resources (snd (saveResource (js ''s1'') (js ''avatar'') (js ''main'') (JStr (js ''blobB'')) 2000
        (snd (saveResource (js ''s1'') (js ''avatar'') (js ''main'') (JStr (js ''blobA'')) 1000
           empty_db))))) = 1"
  using saveResource_twice [OF resources_inv_empty, of "js ''s1''" "js ''avatar''" "js ''main''"
      "JStr (js ''blobA'')" 1000 "JStr (js ''blobB'')" 2000] resources_inv_empty
  by (simp add: saveResource_def empty_db_def Let_def)

text \<open>
  C4, as the claim states it, fails: with \<open>theme: 'dark'\<close> stored for \<open>s1\<close>, saving
  \<open>{ fontSize: 14 }\<close>, which has no \<open>theme\<close>, leaves a row without \<open>theme\<close>.
\<close>

theorem saveSettings_merge_counterexample:
  "map_option (\<lambda>row. row ''theme'') (loadSettings (js ''s1'') db_dark)
     = Some (Some (JStr (js ''dark''))) \<and>
   [''fontSize'' \<mapsto> JNum 14] ''theme'' = None \<and>
   map_option (\<lambda>row. row ''theme'')
     (loadSettings (js ''s1'') (snd (saveSettings (js ''s1'') [''fontSize'' \<mapsto> JNum 14] db_dark)))
     = Some None"
  by (simp add: db_dark_def saveSettings_def loadSettings_def Let_def get_put empty_db_def get_def)

text \<open>
  C4, amended. \<open>saveSettings\<close> replaces the settings row of the session: when the new
  fields have no \<open>sessionId\<close> of their own, or the session's, the save resolves and
  \<open>loadSettings\<close> returns exactly \<open>{ sessionId, ...newFields }\<close>; a field other than
  \<open>sessionId\<close> that the new fields do not have is absent from the stored row, whatever
  the old row held.
\<close>

theorem saveSettings_replaces:
  assumes "new ''sessionId'' = None \<or> new ''sessionId'' = Some (JStr S)"
  shows "fst (saveSettings S new d) = Resolved \<and>
         loadSettings S (snd (saveSettings S new d)) = Some ([''sessionId'' \<mapsto> JStr S] ++ new) \<and>
         (\<forall>row f. loadSettings S (snd (saveSettings S new d)) = Some row \<and>
                  f \<noteq> ''sessionId'' \<and> new f = None \<longrightarrow> row f = None)"
proof -
  have k: "to_key (([''sessionId'' \<mapsto> JStr S] ++ new) ''sessionId'') = Some (KStr S)"
    using assms by (auto simp: map_add_def)
  have sv: "saveSettings S new d
      = (Resolved, d\<lparr>settings := put (KStr S) ([''sessionId'' \<mapsto> JStr S] ++ new) (settings d)\<rparr>)"
    by (simp add: saveSettings_def Let_def k)
  have ld: "loadSettings S (snd (saveSettings S new d)) = Some ([''sessionId'' \<mapsto> JStr S] ++ new)"
    by (simp add: sv loadSettings_def get_put)
  have "([''sessionId'' \<mapsto> JStr S] ++ new) f = None" if "f \<noteq> ''sessionId''" "new f = None" for f
    using that by (simp add: map_add_def)
  with sv ld show ?thesis by simp
qed

theorem saveSettings_replaces_witness:
  "([''fontSize'' \<mapsto> JNum 14] ''sessionId'' = None \<or>
      [''fontSize'' \<mapsto> JNum 14] ''sessionId'' = Some (JStr (js ''s1''))) \<and>
   fst (saveSettings (js ''s1'') [''fontSize'' \<mapsto> JNum 14] db_dark) = Resolved \<and>
   loadSettings (js ''s1'') (snd (saveSettings (js ''s1'') [''fontSize'' \<mapsto> JNum 14] db_dark))
     = Some ([''sessionId'' \<mapsto> JStr (js ''s1'')] ++ [''fontSize'' \<mapsto> JNum 14]) \<and>
   map_option (\<lambda>row. row ''theme'')
     (loadSettings (js ''s1'') (snd (saveSettings (js ''s1'') [''fontSize'' \<mapsto> JNum 14] db_dark)))
     = Some None"
  using saveSettings_replaces [of "[''fontSize'' \<mapsto> JNum 14]" "js ''s1''" db_dark]
  by simp

text \<open>
  C5. For every session id that has no row in \<open>sessions\<close>, \<open>updateSession\<close> rejects with
  the not-found error (\<open>new Error('...')\<close> in the \<open>else\<close> branch of the read) and the
  database, the sessions collection included, is what it was.
\<close>

theorem updateSession_missing:
  "get (KStr sessionId) (sessions d) = None \<Longrightarrow>
   updateSession sessionId updates d = (Rejected NotFoundError, d)"
  by (simp add: updateSession_def)

theorem updateSession_missing_witness:
  "get (KStr (js ''missing-id'')) (sessions db_s1) = None \<and>
   updateSession (js ''missing-id'') [''title'' \<mapsto> JStr (js ''x'')] db_s1
     = (Rejected NotFoundError, db_s1)"
  using updateSession_missing [of "js ''missing-id''" db_s1 "[''title'' \<mapsto> JStr (js ''x'')]"]
  by (simp add: db_s1_def empty_db_def get_def js_def)

text \<open>
  C6. On a new \<open>ChatDatabase\<close>, two calls of \<open>getSessions\<close> made before the first
  \<open>open\<close> has completed both find \<open>this.db\<close> null and both call \<open>indexedDB.open\<close>:
  two connections are made, the second replacing the first in \<open>this.db\<close>, while the
  upgrade runs once. Two direct calls of \<open>open\<close>, the second after the first has
  completed, make two connections as well. Only an accessor called after a completed
  \<open>open\<close> reuses the connection.
\<close>

theorem open_not_single_flight:
  "connections (foldl step ChatDatabase [CallGetSessions, CallGetSessions, RequestDone, RequestDone]) = 2 \<and>
   this_db (foldl step ChatDatabase [CallGetSessions, CallGetSessions, RequestDone, RequestDone]) = Some 1 \<and>
   upgrades (foldl step ChatDatabase [CallGetSessions, CallGetSessions, RequestDone, RequestDone]) = 1 \<and>
   connections (foldl step ChatDatabase [CallOpen, RequestDone, CallOpen, RequestDone]) = 2 \<and>
   connections (foldl step ChatDatabase [CallGetSessions, RequestDone, CallGetSessions]) = 1"
  by (simp add: ChatDatabase_def open_call_def dbVersion_def)

text \<open>
  C7, as the claim states it, fails for \<open>saveMessages\<close>: two messages without id, saved
  in the same millisecond with the same random suffix drawn twice, get the same generated
  id; the second \<open>add\<close> then fails on the key and the save is rejected.
\<close>

theorem generated_ids_distinct_counterexample:
  "map_option (\<lambda>m. m ''id'')
     (fst (snd (saveMessages (js ''s1'') [0, 1] (\<lambda>_. 1000) (\<lambda>_. js ''k3x9'') heap_ab db_full)) 0)
     = Some (Some (JStr (js ''s1_msg_1000_k3x9''))) \<and>
   map_option (\<lambda>m. m ''id'')
     (fst (snd (saveMessages (js ''s1'') [0, 1] (\<lambda>_. 1000) (\<lambda>_. js ''k3x9'') heap_ab db_full)) 1)
     = Some (Some (JStr (js ''s1_msg_1000_k3x9''))) \<and>
   fst (saveMessages (js ''s1'') [0, 1] (\<lambda>_. 1000) (\<lambda>_. js ''k3x9'') heap_ab db_full)
     = Rejected ConstraintError"
  by (simp add: saveMessages_eval heap_ab_def)

text \<open>
  C7, amended. In a store that \<open>saveCustomReplies\<close> has written
  (\<open>replies_inv_empty\<close>, \<open>replies_inv_saveCustomReplies\<close>,
  \<open>replies_inv_deleteSession\<close>), a save of \<open>N\<close> replies for a session always resolves
  and leaves the session with exactly \<open>N\<close> rows; their ids are the ids the loop
  generated, \<open>reply_id\<close> at the indices of the batch, and are pairwise distinct,
  whatever \<open>Date.now()\<close> returns, the same millisecond for all rows included. Likewise
  \<open>saveAnniversaries\<close>. For \<open>saveMessages\<close>, two different message objects to which
  one save gave a generated id (objects that had a falsy \<open>id\<close> and were written by the
  loop, \<open>got_id_visited\<close>) have different ids whenever no two draws of the save give the
  same pair of clock reading and random suffix; a save makes at most as many draws as the
  batch has messages.
\<close>

theorem generated_ids_distinct:
  "(replies_inv (customReplies d) \<longrightarrow>
      fst (saveCustomReplies S replies now d) = Resolved \<and>
      length (getAll (\<lambda>r. sessionId_rep r = S)
                (customReplies (snd (saveCustomReplies S replies now d)))) = length replies \<and>
      distinct (map id_rep (getAll (\<lambda>r. sessionId_rep r = S)
                (customReplies (snd (saveCustomReplies S replies now d))))) \<and>
      mset (map id_rep (getAll (\<lambda>r. sessionId_rep r = S)
                (customReplies (snd (saveCustomReplies S replies now d)))))
        = mset (map (\<lambda>idx. reply_id S (now (2 * idx)) idx) [0..<length replies])) \<and>
   (anniversaries_inv (anniversaries d) \<longrightarrow>
      fst (saveAnniversaries S anns now d) = Resolved \<and>
      length (getAll (\<lambda>a. sessionId_ann a = S)
                (anniversaries (snd (saveAnniversaries S anns now d)))) = length anns \<and>
      distinct (map id_ann (getAll (\<lambda>a. sessionId_ann a = S)
                (anniversaries (snd (saveAnniversaries S anns now d))))) \<and>
      mset (map id_ann (getAll (\<lambda>a. sessionId_ann a = S)
                (anniversaries (snd (saveAnniversaries S anns now d)))))
        = mset (map (\<lambda>idx. ann_id S (now (2 * idx)) idx) [0..<length anns])) \<and>
   (saveMessages S msgs now rnd h d = (out, h', d') \<and>
    inj_on (\<lambda>k. (now k, rnd k)) {..<length msgs} \<and>
    got_id h h' r1 \<and> got_id h h' r2 \<and> r1 \<noteq> r2 \<longrightarrow>
      (\<exists>m1 m2. h' r1 = Some m1 \<and> h' r2 = Some m2 \<and> m1 ''id'' \<noteq> m2 ''id''))"
  using saveCustomReplies_distinct [of d S replies now]
    saveAnniversaries_distinct [of d S anns now]
    saveMessages_distinct_ids [of S msgs now rnd h d out h' d' r1 r2]
  by blast

theorem generated_ids_distinct_witness:
  "replies_inv (customReplies db_full) \<and>
   fst (saveCustomReplies (js ''s1'') [[''text'' \<mapsto> JStr (js ''hi'')], [''text'' \<mapsto> JStr (js ''yo'')]]
          (\<lambda>_. 1000) db_full) = Resolved \<and>
   map id_rep (getAll (\<lambda>r. sessionId_rep r = js ''s1'')
     (customReplies (snd (saveCustomReplies (js ''s1'')
        [[''text'' \<mapsto> JStr (js ''hi'')], [''text'' \<mapsto> JStr (js ''yo'')]] (\<lambda>_. 1000) db_full))))
     = [js ''s1_reply_1000_0'', js ''s1_reply_1000_1''] \<and>
   distinct (map id_rep (getAll (\<lambda>r. sessionId_rep r = js ''s1'')
     (customReplies (snd (saveCustomReplies (js ''s1'')
        [[''text'' \<mapsto> JStr (js ''hi'')], [''text'' \<mapsto> JStr (js ''yo'')]] (\<lambda>_. 1000) db_full))))) \<and>
   anniversaries_inv (anniversaries db_full) \<and>
   fst (saveAnniversaries (js ''s1'') [[''name'' \<mapsto> JStr (js ''a'')], [''name'' \<mapsto> JStr (js ''b'')]]
          (\<lambda>_. 1000) db_full) = Resolved \<and>
   distinct (map id_ann (getAll (\<lambda>a. sessionId_ann a = js ''s1'')
     (anniversaries (snd (saveAnniversaries (js ''s1'')
        [[''name'' \<mapsto> JStr (js ''a'')], [''name'' \<mapsto> JStr (js ''b'')]] (\<lambda>_. 1000) db_full))))) \<and>
   inj_on (\<lambda>k. (1000 :: int, rnd_ab k)) {..<length [0 :: ref, 1]} \<and>
   got_id heap_ab (fst (snd (saveMessages (js ''s1'') [0, 1] (\<lambda>_. 1000) rnd_ab heap_ab db_full))) 0 \<and>
   got_id heap_ab (fst (snd (saveMessages (js ''s1'') [0, 1] (\<lambda>_. 1000) rnd_ab heap_ab db_full))) 1 \<and>
   (\<exists>m1 m2.
      fst (snd (saveMessages (js ''s1'') [0, 1] (\<lambda>_. 1000) rnd_ab heap_ab db_full)) 0 = Some m1 \<and>
      fst (snd (saveMessages (js ''s1'') [0, 1] (\<lambda>_. 1000) rnd_ab heap_ab db_full)) 1 = Some m2 \<and>
      m1 ''id'' \<noteq> m2 ''id'')"
proof -
  let ?reps = "[[''text'' \<mapsto> JStr (js ''hi'')], [''text'' \<mapsto> JStr (js ''yo'')]] :: obj list"
  let ?anns = "[[''name'' \<mapsto> JStr (js ''a'')], [''name'' \<mapsto> JStr (js ''b'')]] :: obj list"
  let ?X = "saveMessages (js ''s1'') [0, 1] (\<lambda>_. 1000) rnd_ab heap_ab db_full"
  note inst = generated_ids_distinct [of db_full "js ''s1''" ?reps "\<lambda>_. 1000" ?anns
      "[0, 1]" rnd_ab heap_ab Resolved "fst (snd ?X)" "snd (snd ?X)" 0 1]
  have ids: "map id_rep (getAll (\<lambda>r. sessionId_rep r = js ''s1'')
     (customReplies (snd (saveCustomReplies (js ''s1'') ?reps (\<lambda>_. 1000) db_full))))
     = [js ''s1_reply_1000_0'', js ''s1_reply_1000_1'']"
    by (simp add: saveCustomReplies_def db_full_def cursor_delete_filter Let_def tx_add_def
        add_def get_def getAll_def reply_id_def dec_int_1000 dec_nat_0_1 js_def)
  have res: "fst ?X = Resolved"
    by (simp add: saveMessages_eval heap_ab_def)
  then have eq: "?X = (Resolved, fst (snd ?X), snd (snd ?X))"
    by (metis prod.collapse)
  have ne: "rnd_ab 0 \<noteq> rnd_ab 1" by (simp add: rnd_ab_def js_def)
  have "{..<length [0 :: ref, 1]} = {0, 1}" by auto
  with ne have draws: "inj_on (\<lambda>k. (1000 :: int, rnd_ab k)) {..<length [0 :: ref, 1]}"
    by (simp add: inj_on_def)
  have h0: "heap_ab 0 = Some [''text'' \<mapsto> JStr (js ''hi''), ''timestamp'' \<mapsto> JNum 100]"
    and h1: "heap_ab 1 = Some [''text'' \<mapsto> JStr (js ''yo''), ''timestamp'' \<mapsto> JNum 50]"
    by (simp_all add: heap_ab_def)
  have g0: "got_id heap_ab (fst (snd ?X)) 0"
    by (rule got_id_visited [OF eq _ _ h0]) simp_all
  have g1: "got_id heap_ab (fst (snd ?X)) 1"
    by (rule got_id_visited [OF eq _ _ h1]) simp_all
  from inst replies_inv_db_full
  have a: "fst (saveCustomReplies (js ''s1'') ?reps (\<lambda>_. 1000) db_full) = Resolved"
    and b: "distinct (map id_rep (getAll (\<lambda>r. sessionId_rep r = js ''s1'')
       (customReplies (snd (saveCustomReplies (js ''s1'') ?reps (\<lambda>_. 1000) db_full)))))"
    by blast+
  from inst anniversaries_inv_db_full
  have c: "fst (saveAnniversaries (js ''s1'') ?anns (\<lambda>_. 1000) db_full) = Resolved"
    and e: "distinct (map id_ann (getAll (\<lambda>a. sessionId_ann a = js ''s1'')
       (anniversaries (snd (saveAnniversaries (js ''s1'') ?anns (\<lambda>_. 1000) db_full)))))"
    by blast+
  have "(0 :: ref) \<noteq> 1" by simp
  with inst eq draws g0 g1
  have f: "\<exists>m1 m2. fst (snd ?X) 0 = Some m1 \<and> fst (snd ?X) 1 = Some m2 \<and> m1 ''id'' \<noteq> m2 ''id''"
    by blast
  from replies_inv_db_full a ids b anniversaries_inv_db_full c e draws g0 g1 f
  show ?thesis by (intro conjI)
qed

text \<open>
  C8. \<open>loadCustomReplies\<close> returns the \<open>{ text, id }\<close> of the rows of
  \<open>sortedReplies\<close>, in their order. These rows are exactly the stored rows of the
  session that are enabled, none has \<open>enabled === false\<close>, and their stored
  timestamps are non-increasing along the returned list.
\<close>

theorem loadCustomReplies_sorted:
  "loadCustomReplies S d
     = map (\<lambda>r. \<lparr>text_ent = text_rep r, id_ent = id_rep r\<rparr>) (sortedReplies S d) \<and>
   mset (sortedReplies S d)
     = mset (filter (\<lambda>r. sessionId_rep r = S \<and> enabled_rep r) (map snd (customReplies d))) \<and>
   (\<forall>r \<in> set (sortedReplies S d). enabled_rep r \<noteq> False) \<and>
   sorted_wrt (\<lambda>a b. timestamp_rep b \<le> timestamp_rep a) (sortedReplies S d)"
proof -
  have m: "mset (sortedReplies S d)
     = mset (filter (\<lambda>r. sessionId_rep r = S \<and> enabled_rep r) (map snd (customReplies d)))"
    unfolding sortedReplies_def mset_js_sort getAll_filter
    by (simp add: conj_commute del: mset_map mset_filter)
  then have "set (sortedReplies S d)
     = set (filter (\<lambda>r. sessionId_rep r = S \<and> enabled_rep r) (map snd (customReplies d)))"
    by (rule mset_eq_setD)
  then have e: "\<forall>r \<in> set (sortedReplies S d). enabled_rep r \<noteq> False" by simp
  have s: "sorted_wrt (\<lambda>a b. timestamp_rep b \<le> timestamp_rep a) (sortedReplies S d)"
    unfolding sortedReplies_def by (rule sorted_js_sort_desc)
  from m e s show ?thesis by (simp add: loadCustomReplies_def)
qed

theorem loadCustomReplies_sorted_witness:
  "loadCustomReplies (js ''s1'') db_replies
     = [\<lparr>text_ent = JStr (js ''latest''), id_ent = js ''s1_reply_1000_2''\<rparr>,
        \<lparr>text_ent = JStr (js ''first''), id_ent = js ''s1_reply_1000_0''\<rparr>] \<and>
   map timestamp_rep (sortedReplies (js ''s1'') db_replies) = [2000, 1000] \<and>
   map enabled_rep (sortedReplies (js ''s1'') db_replies) = [True, True] \<and>
   sorted_wrt (\<lambda>a b. timestamp_rep b \<le> timestamp_rep a) (sortedReplies (js ''s1'') db_replies)"
proof -
  have rows: "map timestamp_rep (sortedReplies (js ''s1'') db_replies) = [2000, 1000]"
    "map enabled_rep (sortedReplies (js ''s1'') db_replies) = [True, True]"
    "map (\<lambda>r. \<lparr>text_ent = text_rep r, id_ent = id_rep r\<rparr>) (sortedReplies (js ''s1'') db_replies)
       = [\<lparr>text_ent = JStr (js ''latest''), id_ent = js ''s1_reply_1000_2''\<rparr>,
          \<lparr>text_ent = JStr (js ''first''), id_ent = js ''s1_reply_1000_0''\<rparr>]"
    by (simp_all add: sortedReplies_def db_replies_def empty_db_def getAll_def js_sort_def js_def)
  from loadCustomReplies_sorted [of "js ''s1''" db_replies] rows show ?thesis by simp
qed

text \<open>
  C9. The resource id is not injective: the triples \<open>('a_b', 'c', 'd')\<close> and
  \<open>('a', 'b_c', 'd')\<close> differ and both give the id \<open>a_b_c_d\<close>, so that after a resource
  is saved for the first, saving one for the second overwrites its row: loading the first
  returns the data saved for the second.
\<close>

theorem resource_id_collision:
  "(js ''a_b'', js ''c'', js ''d'') \<noteq> (js ''a'', js ''b_c'', js ''d'') \<and>
   resource_id (js ''a_b'') (js ''c'') (js ''d'') = resource_id (js ''a'') (js ''b_c'') (js ''d'') \<and>
   loadResource (js ''a_b'') (js ''c'') (js ''d'')
     (snd (saveResource (js ''a'') (js ''b_c'') (js ''d'') B n2
        (snd (saveResource (js ''a_b'') (js ''c'') (js ''d'') A n1 d)))) = B"
proof -
  have eq: "resource_id (js ''a_b'') (js ''c'') (js ''d'') = resource_id (js ''a'') (js ''b_c'') (js ''d'')"
    by (simp add: resource_id_def js_def)
  have ne: "(js ''a_b'', js ''c'', js ''d'') \<noteq> (js ''a'', js ''b_c'', js ''d'')"
    by (simp add: js_def)
  have "loadResource (js ''a_b'') (js ''c'') (js ''d'')
     (snd (saveResource (js ''a'') (js ''b_c'') (js ''d'') B n2
        (snd (saveResource (js ''a_b'') (js ''c'') (js ''d'') A n1 d)))) = B"
    unfolding loadResource_def eq by (simp add: saveResource_def Let_def get_put)
  with eq ne show ?thesis by blast
qed

text \<open>
  C10, as the claim states it, fails on its last part: a message whose \<open>id\<close> field is
  present and holds the number 0 has it overwritten with a generated id, since the loop
  tests \<open>!msg.id\<close>.
\<close>

theorem saveMessages_mutates_counterexample:
  "map_option (\<lambda>m. m ''id'') (heap_zero 0) = Some (Some (JNum 0)) \<and>
   fst (saveMessages (js ''s1'') [0] (\<lambda>_. 1000) rnd_ab heap_zero db_full) = Resolved \<and>
   map_option (\<lambda>m. m ''id'')
     (fst (snd (saveMessages (js ''s1'') [0] (\<lambda>_. 1000) rnd_ab heap_zero db_full)) 0)
     = Some (Some (JStr (js ''s1_msg_1000_k3x9'')))"
  by (simp add: saveMessages_eval heap_zero_def)

text \<open>
  C10, amended. When the loop of \<open>saveMessages\<close> runs to its end (the promise resolves,
  or is rejected because a request failed), every object of the input array is written
  in place: the object the caller holds has \<open>sessionId\<close> set to the session id when its
  own was falsy (absent, \<open>undefined\<close>, \<open>null\<close>, \<open>false\<close>, 0 or the empty string) and
  kept otherwise, has \<open>id\<close> set to a generated id when its own was falsy and kept
  otherwise, and has every other field unchanged.
\<close>

theorem saveMessages_mutates:
  assumes "saveMessages S msgs now rnd h d = (out, h', d')"
    and "out = Resolved \<or> out = Rejected ConstraintError"
    and "r \<in> set msgs"
  shows "\<exists>m m'. h r = Some m \<and> h' r = Some m' \<and>
           m' ''sessionId'' = (if truthy (m ''sessionId'') then m ''sessionId'' else Some (JStr S)) \<and>
           (\<exists>j. m' ''id'' = (if truthy (m ''id'') then m ''id''
                            else Some (JStr (msg_id S (now j) (rnd j))))) \<and>
           (\<forall>f. f \<noteq> ''sessionId'' \<and> f \<noteq> ''id'' \<longrightarrow> m' f = m f)"
proof -
  from assms(1) obtain x w n where
    run: "insert_messages S now rnd msgs h
       (Inr (cursor_delete (\<lambda>m. m ''sessionId'' = Some (JStr S)) (messages d))) 0 = (x, h', w, n)"
    and res: "out = Resolved \<longleftrightarrow> x = None \<and> (\<exists>st. w = Inr st \<and> d' = d\<lparr>messages := st\<rparr>)"
    and rej: "out = Rejected ConstraintError \<longrightarrow> x = None"
    by (rule saveMessages_cases)
  from assms(2) res rej have x: "x = None" by blast
  from insert_messages_visited [OF run [unfolded x] assms(3)] obtain m j where
    m: "h r = Some m" and m': "h' r = Some (with_defaults S (msg_id S (now j) (rnd j)) m)"
    by blast
  let ?m' = "with_defaults S (msg_id S (now j) (rnd j)) m"
  have a: "?m' ''sessionId'' = (if truthy (m ''sessionId'') then m ''sessionId'' else Some (JStr S))"
    by (rule with_defaults_sessionId)
  have b: "\<exists>j. ?m' ''id'' = (if truthy (m ''id'') then m ''id''
                            else Some (JStr (msg_id S (now j) (rnd j))))"
    by (rule exI [of _ j]) (rule with_defaults_id)
  have c: "\<forall>f. f \<noteq> ''sessionId'' \<and> f \<noteq> ''id'' \<longrightarrow> ?m' f = m f"
    by (simp add: with_defaults_other)
  from m m' a b c show ?thesis by blast
qed

theorem saveMessages_mutates_witness:
  "fst (saveMessages (js ''s1'') [0, 1] (\<lambda>_. 1000) rnd_ab heap_ab db_full) = Resolved \<and>
   (1 :: ref) \<in> set [0, 1] \<and>
   map_option (\<lambda>m. (m ''sessionId'', m ''id'', m ''text'')) (heap_ab 1)
     = Some (None, None, Some (JStr (js ''yo''))) \<and>
   map_option (\<lambda>m. (m ''sessionId'', m ''id'', m ''text''))
     (fst (snd (saveMessages (js ''s1'') [0, 1] (\<lambda>_. 1000) rnd_ab heap_ab db_full)) 1)
     = Some (Some (JStr (js ''s1'')), Some (JStr (js ''s1_msg_1000_p07q'')), Some (JStr (js ''yo'')))"
proof -
  let ?X = "saveMessages (js ''s1'') [0, 1] (\<lambda>_. 1000) rnd_ab heap_ab db_full"
  have res: "fst ?X = Resolved"
    by (simp add: saveMessages_eval heap_ab_def)
  then have eq: "?X = (Resolved, fst (snd ?X), snd (snd ?X))"
    by (metis prod.collapse)
  have before: "map_option (\<lambda>m. (m ''sessionId'', m ''id'', m ''text'')) (heap_ab 1)
     = Some (None, None, Some (JStr (js ''yo'')))"
    by (simp add: heap_ab_def)
  have "(1 :: ref) \<in> set [0, 1]" by simp
  from saveMessages_mutates [OF eq _ this] obtain m m' where
    m: "heap_ab 1 = Some m" and m': "fst (snd ?X) 1 = Some m'"
    and sid: "m' ''sessionId'' = (if truthy (m ''sessionId'') then m ''sessionId''
                                 else Some (JStr (js ''s1'')))"
    and rest: "\<forall>f. f \<noteq> ''sessionId'' \<and> f \<noteq> ''id'' \<longrightarrow> m' f = m f"
    by blast
  from m before have m0: "m ''sessionId'' = None" "m ''text'' = Some (JStr (js ''yo''))"
    by auto
  from sid m0 have s: "m' ''sessionId'' = Some (JStr (js ''s1''))" by simp
  from rest m0 have t: "m' ''text'' = Some (JStr (js ''yo''))" by simp
  have "map_option (\<lambda>m. m ''id'') (fst (snd ?X) 1) = Some (Some (JStr (js ''s1_msg_1000_p07q'')))"
    by (simp add: saveMessages_eval heap_ab_def)
  with m' have i: "m' ''id'' = Some (JStr (js ''s1_msg_1000_p07q''))" by simp
  from res before m' s t i show ?thesis by simp
qed

end
